theory Spec2Isabelle
  imports Main "HOL-Library.Sublist"
begin

section \<open>Strings\<close>

text \<open>
  A JavaScript string is a sequence of UTF-16 code units. A code unit is modelled by its
  number, so every string the program can hold is a list of naturals below 65536; nothing
  below depends on that bound. \<open>js\<close> turns a literal of the source into its code units
  (all literals of the source are ASCII).
\<close>

type_synonym jschar = nat
type_synonym jsstring = "jschar list"

definition js :: "string \<Rightarrow> jsstring" where
  "js s = map of_char s"

text \<open>\<^verbatim>\<open>String.prototype.indexOf\<close>: the least index at which the needle starts; \<open>None\<close> is
  the source's \<open>-1\<close>.\<close>

fun indexOf :: "jsstring \<Rightarrow> jsstring \<Rightarrow> nat option" where
  "indexOf [] needle = (if needle = [] then Some 0 else None)"
| "indexOf (c # cs) needle =
     (if prefix needle (c # cs) then Some 0 else map_option Suc (indexOf cs needle))"

text \<open>\<^verbatim>\<open>String.prototype.includes\<close>: case-sensitive substring test.\<close>

fun includes_js :: "jsstring \<Rightarrow> jsstring \<Rightarrow> bool" where
  "includes_js [] needle = (needle = [])"
| "includes_js (c # cs) needle = (prefix needle (c # cs) \<or> includes_js cs needle)"

text \<open>\<^verbatim>\<open>s.slice(0, i)\<close> and \<^verbatim>\<open>s.slice(i)\<close> for \<open>0 \<le> i \<le> length s\<close>, the only way the source
  calls them.\<close>

definition sliceTo :: "jsstring \<Rightarrow> nat \<Rightarrow> jsstring" where
  "sliceTo s i = take i s"

definition sliceFrom :: "jsstring \<Rightarrow> nat \<Rightarrow> jsstring" where
  "sliceFrom s i = drop i s"

section \<open>Regular expressions\<close>

text \<open>
  The patterns of the source are sequences of single characters, the class \<^verbatim>\<open>\s\<close>, negated
  classes \<^verbatim>\<open>[^...]\<close>, the greedy quantifiers \<^verbatim>\<open>*\<close>, \<^verbatim>\<open>+\<close>, \<^verbatim>\<open>?\<close> applied to one such
  character matcher, and one capture group. A leading \<^verbatim>\<open>^\<close> and the flag \<^verbatim>\<open>i\<close> are fields
  of the pattern.
\<close>

datatype cls = Lit jschar | Space | NoneOf "jschar list"

datatype rx = Eps | One cls | Star cls | Plus cls | Opt cls | Cat rx rx | Cap rx

record regexp =
  anchored :: bool
  ignoreCase :: bool
  body :: rx

text \<open>Canonicalize of the language definition, for patterns without the flag \<^verbatim>\<open>u\<close>: with
  \<^verbatim>\<open>i\<close> a code unit is compared by its upper case, and a code unit outside ASCII is never
  mapped into ASCII. The patterns here hold ASCII characters only, so only the ASCII
  letters need their upper case.\<close>

definition canonicalize :: "bool \<Rightarrow> jschar \<Rightarrow> jschar" where
  "canonicalize ic c = (if ic \<and> 97 \<le> c \<and> c \<le> 122 then c - 32 else c)"

text \<open>The code units matched by \<^verbatim>\<open>\s\<close>: white space and line terminators.\<close>

definition isWhiteSpace :: "jschar \<Rightarrow> bool" where
  "isWhiteSpace c \<longleftrightarrow>
     c = 9 \<or> c = 10 \<or> c = 11 \<or> c = 12 \<or> c = 13 \<or> c = 32 \<or> c = 160 \<or> c = 5760 \<or>
     (8192 \<le> c \<and> c \<le> 8202) \<or> c = 8232 \<or> c = 8233 \<or> c = 8239 \<or> c = 8287 \<or>
     c = 12288 \<or> c = 65279"

fun clsMatch :: "bool \<Rightarrow> cls \<Rightarrow> jschar \<Rightarrow> bool" where
  "clsMatch ic (Lit c) x = (canonicalize ic x = canonicalize ic c)"
| "clsMatch ic Space x = isWhiteSpace x"
| "clsMatch ic (NoneOf cs) x = (canonicalize ic x \<notin> canonicalize ic ` set cs)"

text \<open>The choices of a greedy \<^verbatim>\<open>*\<close> in the order the backtracking matcher tries them: the
  longest run first, then one character less each time, down to the empty run. Each choice
  is given by the rest of the input after it.\<close>

fun starTails :: "(jschar \<Rightarrow> bool) \<Rightarrow> jsstring \<Rightarrow> jsstring list" where
  "starTails p [] = [[]]"
| "starTails p (x # xs) = (if p x then starTails p xs @ [x # xs] else [x # xs])"

text \<open>The backtracking matcher: all ways to match the pattern at the start of the input, in
  the matcher's order of preference, each with the texts of its capture groups and the rest
  of the input.\<close>

fun rxm :: "bool \<Rightarrow> rx \<Rightarrow> jsstring \<Rightarrow> (jsstring list \<times> jsstring) list" where
  "rxm ic Eps s = [([], s)]"
| "rxm ic (One c) s =
     (case s of [] \<Rightarrow> [] | x # xs \<Rightarrow> if clsMatch ic c x then [([], xs)] else [])"
| "rxm ic (Star c) s = map (Pair []) (starTails (clsMatch ic c) s)"
| "rxm ic (Plus c) s =
     (case s of [] \<Rightarrow> []
      | x # xs \<Rightarrow> if clsMatch ic c x then map (Pair []) (starTails (clsMatch ic c) xs) else [])"
| "rxm ic (Opt c) s =
     (case s of [] \<Rightarrow> [([], s)]
      | x # xs \<Rightarrow> if clsMatch ic c x then [([], xs), ([], s)] else [([], s)])"
| "rxm ic (Cat a b) s =
     concat (map (\<lambda>(ca, sa). map (\<lambda>(cb, sb). (ca @ cb, sb)) (rxm ic b sa)) (rxm ic a s))"
| "rxm ic (Cap a) s =
     map (\<lambda>(ca, sa). (take (length s - length sa) s # ca, sa)) (rxm ic a s)"

definition str :: "string \<Rightarrow> rx" where
  "str w = foldr (\<lambda>c r. Cat (One (Lit (of_char c))) r) w Eps"

definition cat :: "rx list \<Rightarrow> rx" where
  "cat rs = foldr Cat rs Eps"

text \<open>The result of a successful match: where it starts, the matched text, the texts of the
  capture groups.\<close>

record matchResult =
  index :: nat
  matched :: jsstring
  captures :: "jsstring list"

definition matchAt :: "regexp \<Rightarrow> nat \<Rightarrow> jsstring \<Rightarrow> matchResult option" where
  "matchAt r i s =
     (case rxm (ignoreCase r) (body r) s of
        [] \<Rightarrow> None
      | (caps, rest) # _ \<Rightarrow>
          Some \<lparr>index = i, matched = take (length s - length rest) s, captures = caps\<rparr>)"

text \<open>The search of a pattern without the flags \<^verbatim>\<open>g\<close> and \<^verbatim>\<open>y\<close>: start positions from the
  left, the end of the input included; the first position with a match wins.\<close>

fun searchFrom :: "regexp \<Rightarrow> nat \<Rightarrow> jsstring \<Rightarrow> matchResult option" where
  "searchFrom r i [] = matchAt r i []"
| "searchFrom r i (x # xs) =
     (case matchAt r i (x # xs) of Some m \<Rightarrow> Some m | None \<Rightarrow> searchFrom r (Suc i) xs)"

definition regExpExec :: "regexp \<Rightarrow> jsstring \<Rightarrow> matchResult option" where
  "regExpExec r s = (if anchored r then matchAt r 0 s else searchFrom r 0 s)"

section \<open>Replacement\<close>

definition isDigit :: "jschar \<Rightarrow> bool" where
  "isDigit c \<longleftrightarrow> 48 \<le> c \<and> c \<le> 57"

text \<open>GetSubstitution of the language definition: the replacement text is a template in
  which \<^verbatim>\<open>$$\<close> stands for a dollar sign, \<^verbatim>\<open>$&\<close> for the matched text, \<^verbatim>\<open>$`\<close> for
  the input before the match, \<^verbatim>\<open>$'\<close> for the input after it, and \<^verbatim>\<open>$n\<close>, \<^verbatim>\<open>$nn\<close> for
  a capture group that exists. Every other character stands for itself.\<close>

fun getSubstitution ::
  "jsstring \<Rightarrow> jsstring \<Rightarrow> nat \<Rightarrow> jsstring list \<Rightarrow> jsstring \<Rightarrow> jsstring" where
  "getSubstitution m s p caps [] = []"
| "getSubstitution m s p caps [c] = [c]"
| "getSubstitution m s p caps (c # d # t) =
     (if c \<noteq> 36 then c # getSubstitution m s p caps (d # t)
      else if d = 36 then 36 # getSubstitution m s p caps t
      else if d = 96 then take p s @ getSubstitution m s p caps t
      else if d = 38 then m @ getSubstitution m s p caps t
      else if d = 39 then drop (p + length m) s @ getSubstitution m s p caps t
      else if isDigit d then
        (case t of
           d2 # t2 \<Rightarrow>
             if isDigit d2 \<and> 10 * (d - 48) + (d2 - 48) \<le> length caps then
               (if 1 \<le> 10 * (d - 48) + (d2 - 48)
                then caps ! (10 * (d - 48) + (d2 - 48) - 1) @ getSubstitution m s p caps t2
                else 36 # d # d2 # getSubstitution m s p caps t2)
             else if 1 \<le> d - 48 \<and> d - 48 \<le> length caps
               then caps ! (d - 48 - 1) @ getSubstitution m s p caps t
               else 36 # d # getSubstitution m s p caps t
         | [] \<Rightarrow>
             if 1 \<le> d - 48 \<and> d - 48 \<le> length caps
               then caps ! (d - 48 - 1) @ getSubstitution m s p caps t
               else 36 # d # getSubstitution m s p caps t)
      else 36 # getSubstitution m s p caps (d # t))"

text \<open>\<^verbatim>\<open>s.replace(r, template)\<close> for a pattern without the flag \<^verbatim>\<open>g\<close>: the first match is
  replaced, and an input without a match is returned as it is.\<close>

definition jsReplace :: "regexp \<Rightarrow> jsstring \<Rightarrow> jsstring \<Rightarrow> jsstring" where
  "jsReplace r template s =
     (case regExpExec r s of
        None \<Rightarrow> s
      | Some m \<Rightarrow>
          take (index m) s
          @ getSubstitution (matched m) s (index m) (captures m) template
          @ drop (index m + length (matched m)) s)"

text \<open>\<^verbatim>\<open>value.replace(/"/g, '&quot;')\<close>: every double quote (code unit 34) becomes the six
  characters of \<^verbatim>\<open>&quot;\<close>; that template holds no dollar sign.\<close>

fun escapeQuot :: "jsstring \<Rightarrow> jsstring" where
  "escapeQuot [] = []"
| "escapeQuot (c # cs) = (if c = 34 then js ''&quot;'' @ escapeQuot cs else c # escapeQuot cs)"

section \<open>The slug extractor\<close>

text \<open>\<^verbatim>\<open>/^\/products\/([^/?]+)/\<close>\<close>

definition slugRx :: regexp where
  "slugRx = \<lparr>anchored = True, ignoreCase = False,
             body = cat [str ''/products/'', Cap (Plus (NoneOf (js ''/?'')))]\<rparr>"

text \<open>\<^verbatim>\<open>match ? match[1] : null\<close>; \<open>None\<close> is the source's \<open>null\<close>.\<close>

definition extractProductSlug :: "jsstring \<Rightarrow> jsstring option" where
  "extractProductSlug pathname =
     (case regExpExec slugRx pathname of
        None \<Rightarrow> None
      | Some m \<Rightarrow> (case captures m of [] \<Rightarrow> None | c # _ \<Rightarrow> Some c))"

section \<open>The tag-set and the collaborators\<close>

text \<open>A field of the generated tag-set is a string or is missing (\<^verbatim>\<open>undefined\<close>). A missing
  value is falsy and has no method \<^verbatim>\<open>replace\<close>; the empty string is falsy too.\<close>

datatype jsval = Undefined | Str jsstring

fun truthy :: "jsval \<Rightarrow> bool" where
  "truthy Undefined = False"
| "truthy (Str s) = (s \<noteq> [])"

record seoData =
  title :: jsval
  description :: jsval
  ogTitle :: jsval
  ogDescription :: jsval
  ogImage :: jsval
  keywords_js :: jsval
  canonicalUrl :: jsval

text \<open>What a \<^verbatim>\<open>throw\<close> or a rejected promise carries: the TypeError of a method call on a
  missing value, or whatever a collaborator raises.\<close>

datatype error = TypeError | Raised jsstring

text \<open>The product model and the tag-set generator are not part of the injector; they are
  parameters. A lookup yields a product, nothing (\<^verbatim>\<open>null\<close>), or raises.\<close>

record 'p collaborators =
  findOne :: "jsstring \<Rightarrow> error + 'p option"
  findById :: "jsstring \<Rightarrow> error + 'p option"
  generateProductSeoTags :: "'p \<Rightarrow> jsstring \<Rightarrow> error + seoData"
  createMetaTagsHtml :: "seoData \<Rightarrow> error + jsstring"

text \<open>What the injector does besides returning a document.\<close>

datatype event = CallFindOne jsstring | CallFindById jsstring | ConsoleError error

section \<open>The patterns of the injector\<close>

text \<open>\<^verbatim>\<open>/<title>[^<]*<\/title>/\<close>\<close>

definition titleRx :: regexp where
  \<open>titleRx = \<lparr>anchored = False, ignoreCase = False,
              body = cat [str ''<title>'', Star (NoneOf (js ''<'')), str ''</title>'']\<rparr>\<close>

text \<open>The eight other patterns have one shape,
  \<^verbatim>\<open>/<meta\s+name="description"\s+content="[^"]*"\s*\/?>/i\<close> for one: an opening, white
  space, a first attribute with its value, white space, the name of a second attribute, its
  value without a double quote, optional white space, an optional slash, the closing.\<close>

definition tagRx :: "string \<Rightarrow> string \<Rightarrow> string \<Rightarrow> regexp" where
  \<open>tagRx opening attr valueAttr = \<lparr>anchored = False, ignoreCase = True,
     body = cat [str opening, Plus Space, str attr, Plus Space, str valueAttr,
                 Star (NoneOf (js ''"'')), str ''"'', Star Space, Opt (Lit 47), str ''>'']\<rparr>\<close>

definition descriptionRx :: regexp where
  \<open>descriptionRx = tagRx ''<meta'' ''name="description"'' ''content="''\<close>

definition ogTitleRx :: regexp where
  \<open>ogTitleRx = tagRx ''<meta'' ''property="og:title"'' ''content="''\<close>

definition ogDescriptionRx :: regexp where
  \<open>ogDescriptionRx = tagRx ''<meta'' ''property="og:description"'' ''content="''\<close>

definition keywordsRx :: regexp where
  \<open>keywordsRx = tagRx ''<meta'' ''name="keywords"'' ''content="''\<close>

definition twitterTitleRx :: regexp where
  \<open>twitterTitleRx = tagRx ''<meta'' ''name="twitter:title"'' ''content="''\<close>

definition twitterDescriptionRx :: regexp where
  \<open>twitterDescriptionRx = tagRx ''<meta'' ''name="twitter:description"'' ''content="''\<close>

definition ogImageRx :: regexp where
  \<open>ogImageRx = tagRx ''<meta'' ''property="og:image"'' ''content="''\<close>

definition canonicalRx :: regexp where
  \<open>canonicalRx = tagRx ''<link'' ''rel="canonical"'' ''href="''\<close>

section \<open>The substitutions\<close>

text \<open>\<^verbatim>\<open>v.replace(/"/g, '&quot;')\<close> on a field of the tag-set.\<close>

fun escaped :: "jsval \<Rightarrow> error + jsstring" where
  "escaped Undefined = Inl TypeError"
| "escaped (Str s) = Inr (escapeQuot s)"

text \<open>\<^verbatim>\<open>html = html.replace(pattern, `opening${field.replace(/"/g, '&quot;')}closing`)\<close>: the
  template is evaluated first, so a raise leaves \<^verbatim>\<open>html\<close> as it was.\<close>

definition replaceTag ::
  "regexp \<Rightarrow> string \<Rightarrow> jsval \<Rightarrow> string \<Rightarrow> jsstring \<Rightarrow> error + jsstring" where
  "replaceTag r opening field closing html =
     (case escaped field of
        Inl e \<Rightarrow> Inl e
      | Inr v \<Rightarrow> Inr (jsReplace r (js opening @ v @ js closing) html))"

definition step1_title :: "seoData \<Rightarrow> jsstring \<Rightarrow> error + jsstring" where
  \<open>step1_title sd html = replaceTag titleRx ''<title>'' (title sd) ''</title>'' html\<close>

definition step2_description :: "seoData \<Rightarrow> jsstring \<Rightarrow> error + jsstring" where
  \<open>step2_description sd html =
     replaceTag descriptionRx ''<meta name="description" content="'' (description sd) ''" />'' html\<close>

definition step3_ogTitle :: "seoData \<Rightarrow> jsstring \<Rightarrow> error + jsstring" where
  \<open>step3_ogTitle sd html =
     (if includes_js html (js ''property="og:title"'')
      then replaceTag ogTitleRx ''<meta property="og:title" content="'' (ogTitle sd) ''" />'' html
      else Inr html)\<close>

definition step4_ogDescription :: "seoData \<Rightarrow> jsstring \<Rightarrow> error + jsstring" where
  \<open>step4_ogDescription sd html =
     (if includes_js html (js ''property="og:description"'')
      then replaceTag ogDescriptionRx ''<meta property="og:description" content="''
             (ogDescription sd) ''" />'' html
      else Inr html)\<close>

definition step5_keywords :: "seoData \<Rightarrow> jsstring \<Rightarrow> error + jsstring" where
  \<open>step5_keywords sd html =
     (if truthy (keywords_js sd) then
        (if includes_js html (js ''name="keywords"'')
         then replaceTag keywordsRx ''<meta name="keywords" content="'' (keywords_js sd) ''" />'' html
         else (case indexOf html (js ''</head>'') of
                 None \<Rightarrow> Inr html
               | Some headClosingIndex \<Rightarrow>
                   (case escaped (keywords_js sd) of
                      Inl e \<Rightarrow> Inl e
                    | Inr v \<Rightarrow>
                        Inr (sliceTo html headClosingIndex
                             @ js ''    <meta name="keywords" content="'' @ v @ js ''" />\<newline>''
                             @ sliceFrom html headClosingIndex))))
      else Inr html)\<close>

definition step6_twitterTitle :: "seoData \<Rightarrow> jsstring \<Rightarrow> error + jsstring" where
  \<open>step6_twitterTitle sd html =
     (if includes_js html (js ''name="twitter:title"'')
      then replaceTag twitterTitleRx ''<meta name="twitter:title" content="'' (ogTitle sd) ''" />'' html
      else Inr html)\<close>

definition step7_twitterDescription :: "seoData \<Rightarrow> jsstring \<Rightarrow> error + jsstring" where
  \<open>step7_twitterDescription sd html =
     (if includes_js html (js ''name="twitter:description"'')
      then replaceTag twitterDescriptionRx ''<meta name="twitter:description" content="''
             (ogDescription sd) ''" />'' html
      else Inr html)\<close>

definition step8_ogImage :: "seoData \<Rightarrow> jsstring \<Rightarrow> error + jsstring" where
  \<open>step8_ogImage sd html =
     (if includes_js html (js ''property="og:image"'')
      then replaceTag ogImageRx ''<meta property="og:image" content="'' (ogImage sd) ''" />'' html
      else Inr html)\<close>

definition step9_canonical :: "seoData \<Rightarrow> jsstring \<Rightarrow> error + jsstring" where
  \<open>step9_canonical sd html =
     (if includes_js html (js ''rel="canonical"'')
      then replaceTag canonicalRx ''<link rel="canonical" href="'' (canonicalUrl sd) ''" />'' html
      else Inr html)\<close>

text \<open>The statements of the \<^verbatim>\<open>try\<close> block run in order on the variable \<^verbatim>\<open>html\<close>. When one
  raises, the rest is skipped and the variable keeps the value it has then.\<close>

fun runSteps :: "(jsstring \<Rightarrow> error + jsstring) list \<Rightarrow> jsstring \<Rightarrow> jsstring \<times> error option" where
  "runSteps [] html = (html, None)"
| "runSteps (f # fs) html =
     (case f html of Inl e \<Rightarrow> (html, Some e) | Inr html' \<Rightarrow> runSteps fs html')"

definition injectorSteps :: "seoData \<Rightarrow> (jsstring \<Rightarrow> error + jsstring) list" where
  "injectorSteps sd =
     [step1_title sd, step2_description sd, step3_ogTitle sd, step4_ogDescription sd,
      step5_keywords sd, step6_twitterTitle sd, step7_twitterDescription sd,
      step8_ogImage sd, step9_canonical sd]"

section \<open>The injector\<close>

text \<open>From the found product on: the tag-set is generated, the unused block of tags is
  rendered, the substitutions run. The \<^verbatim>\<open>catch\<close> logs the error and returns the variable
  \<^verbatim>\<open>html\<close>.\<close>

definition injectProduct ::
  "'p collaborators \<Rightarrow> jsstring \<Rightarrow> jsstring \<Rightarrow> 'p \<Rightarrow> event list \<Rightarrow> jsstring \<times> event list" where
  "injectProduct env html baseUrl product evs =
     (case generateProductSeoTags env product baseUrl of
        Inl e \<Rightarrow> (html, evs @ [ConsoleError e])
      | Inr sd \<Rightarrow>
          (case createMetaTagsHtml env sd of
             Inl e \<Rightarrow> (html, evs @ [ConsoleError e])
           | Inr metaTags \<Rightarrow>
               (case runSteps (injectorSteps sd) html of
                  (html', None) \<Rightarrow> (html', evs)
                | (html', Some e) \<Rightarrow> (html', evs @ [ConsoleError e]))))"

text \<open>\<^verbatim>\<open>injectMetaTags(html, pathname, baseUrl)\<close>: the returned document and the events in
  the order they happen.\<close>

definition injectMetaTags ::
  "'p collaborators \<Rightarrow> jsstring \<Rightarrow> jsstring \<Rightarrow> jsstring \<Rightarrow> jsstring \<times> event list" where
  "injectMetaTags env html pathname baseUrl =
     (case extractProductSlug pathname of
        None \<Rightarrow> (html, [])
      | Some slug \<Rightarrow>
          if slug = [] then (html, [])
          else
            (case findOne env slug of
               Inl e \<Rightarrow> (html, [CallFindOne slug, ConsoleError e])
             | Inr (Some product) \<Rightarrow> injectProduct env html baseUrl product [CallFindOne slug]
             | Inr None \<Rightarrow>
                 (case findById env slug of
                    Inl e \<Rightarrow> (html, [CallFindOne slug, CallFindById slug, ConsoleError e])
                  | Inr None \<Rightarrow> (html, [CallFindOne slug, CallFindById slug])
                  | Inr (Some product) \<Rightarrow>
                      injectProduct env html baseUrl product
                        [CallFindOne slug, CallFindById slug])))"

section \<open>Notions used in the statements\<close>

text \<open>A sequence of pattern characters matched at the start of the input, by canonical
  form when the flag \<^verbatim>\<open>i\<close> is set; the result is the rest of the input.\<close>

fun litMatch :: "bool \<Rightarrow> jsstring \<Rightarrow> jsstring \<Rightarrow> jsstring option" where
  "litMatch ic [] s = Some s"
| "litMatch ic (c # w) [] = None"
| "litMatch ic (c # w) (x # s) =
     (if canonicalize ic x = canonicalize ic c then litMatch ic w s else None)"

text \<open>The texts a pattern describes, independently of the matcher: \<open>accepts ic r w\<close> holds
  when the whole of \<open>w\<close> has the shape of \<open>r\<close>.\<close>

fun accepts :: "bool \<Rightarrow> rx \<Rightarrow> jsstring \<Rightarrow> bool" where
  "accepts ic Eps w = (w = [])"
| "accepts ic (One c) w = (length w = 1 \<and> clsMatch ic c (hd w))"
| "accepts ic (Star c) w = list_all (clsMatch ic c) w"
| "accepts ic (Plus c) w = (w \<noteq> [] \<and> list_all (clsMatch ic c) w)"
| "accepts ic (Opt c) w = (w = [] \<or> (length w = 1 \<and> clsMatch ic c (hd w)))"
| "accepts ic (Cat a b) w = (\<exists>k \<le> length w. accepts ic a (take k w) \<and> accepts ic b (drop k w))"
| "accepts ic (Cap a) w = accepts ic a w"

text \<open>The characters a slug is made of: anything but \<^verbatim>\<open>/\<close> (47) and \<^verbatim>\<open>?\<close> (63).\<close>

definition notSep :: "jschar \<Rightarrow> bool" where
  "notSep c \<longleftrightarrow> c \<noteq> 47 \<and> c \<noteq> 63"



text \<open>A small document, a base address, and collaborators that find no product, by slug
  or by identifier.\<close>

definition shopDoc :: jsstring where
  \<open>shopDoc = js ''<head><title>uni10</title><meta name="description" content="Shop"/></head>''\<close>

definition shopUrl :: jsstring where
  "shopUrl = js ''https://uni10.in''"

definition nothingFound :: "unit collaborators" where
  "nothingFound = \<lparr>findOne = (\<lambda>s. Inr None), findById = (\<lambda>s. Inr None),
     generateProductSeoTags = (\<lambda>p b. Inl (Raised [])), createMetaTagsHtml = (\<lambda>sd. Inl (Raised []))\<rparr>"



text \<open>An occurrence of a pattern in a document: the document splits into the text before,
  a text of the pattern's shape, and the text after.\<close>

definition occurs :: "regexp \<Rightarrow> jsstring \<Rightarrow> jsstring \<Rightarrow> jsstring \<Rightarrow> jsstring \<Rightarrow> bool" where
  "occurs r h pre u post \<longleftrightarrow> h = pre @ u @ post \<and> accepts (ignoreCase r) (body r) u"

text \<open>The number of capture groups of a pattern.\<close>

fun groups :: "rx \<Rightarrow> nat" where
  "groups (Cat a b) = groups a + groups b"
| "groups (Cap a) = Suc (groups a)"
| "groups r = 0"

text \<open>A tag-set as the generator would make it for a mug, with double quotes in its values;
  the same with the description missing; collaborators that find the product by its slug and
  generate the given tag-set.\<close>

definition mugTagSet :: seoData where
  \<open>mugTagSet = \<lparr>title = Str (js ''Mug | uni10''), description = Str (js ''A "blue" mug''),
     ogTitle = Str (js ''Mug''), ogDescription = Str (js ''A "blue" mug''),
     ogImage = Str (js ''https://uni10.in/mug.png''), keywords_js = Str (js ''mug, "blue"''),
     canonicalUrl = Str (js ''https://uni10.in/products/mug'')\<rparr>\<close>

definition brokenTagSet :: seoData where
  "brokenTagSet = mugTagSet\<lparr>description := Undefined\<rparr>"

definition mugShop :: "seoData \<Rightarrow> unit collaborators" where
  "mugShop sd = \<lparr>findOne = (\<lambda>s. Inr (Some ())), findById = (\<lambda>s. Inr None),
     generateProductSeoTags = (\<lambda>p b. Inr sd), createMetaTagsHtml = (\<lambda>sd. Inr [])\<rparr>"

text \<open>Two texts equal character by character, up to letter case when the flag is set.\<close>

definition sameText :: "bool \<Rightarrow> jsstring \<Rightarrow> jsstring \<Rightarrow> bool" where
  "sameText ic a b \<longleftrightarrow> map (canonicalize ic) a = map (canonicalize ic) b"

text \<open>What the title pattern describes: \<^verbatim>\<open><title>\<close>, a text without \<^verbatim>\<open><\<close> (60),
  \<^verbatim>\<open></title>\<close>, in lower case.\<close>

definition titleShape :: "jsstring \<Rightarrow> bool" where
  "titleShape u \<longleftrightarrow> (\<exists>c. u = js ''<title>'' @ c @ js ''</title>'' \<and> 60 \<notin> set c)"

text \<open>What the eight tag patterns describe: the opening in either letter case, white space,
  the first attribute with its value in either letter case, white space, the name of the
  second attribute with its opening quote, a value without a double quote (34), the closing
  quote, optional white space, an optional slash (47), and \<^verbatim>\<open>>\<close> (62). The first attribute
  comes before the second.\<close>

definition tagShape :: "string \<Rightarrow> string \<Rightarrow> string \<Rightarrow> jsstring \<Rightarrow> bool" where
  "tagShape opening attr valueAttr u \<longleftrightarrow>
     (\<exists>tg w1 a w2 v c w3 sl.
        u = tg @ w1 @ a @ w2 @ v @ c @ [34] @ w3 @ sl @ [62]
        \<and> sameText True tg (js opening)
        \<and> w1 \<noteq> [] \<and> list_all isWhiteSpace w1
        \<and> sameText True a (js attr)
        \<and> w2 \<noteq> [] \<and> list_all isWhiteSpace w2
        \<and> sameText True v (js valueAttr)
        \<and> 34 \<notin> set c
        \<and> list_all isWhiteSpace w3
        \<and> (sl = [] \<or> sl = [47]))"

text \<open>A document without a text of the given shape, and the leftmost text of the given
  shape in a document, with what stands before and after it.\<close>

definition noOccurrence :: "(jsstring \<Rightarrow> bool) \<Rightarrow> jsstring \<Rightarrow> bool" where
  "noOccurrence shape h \<longleftrightarrow> \<not> (\<exists>pre u post. h = pre @ u @ post \<and> shape u)"

definition firstOccurrence ::
  "(jsstring \<Rightarrow> bool) \<Rightarrow> jsstring \<Rightarrow> jsstring \<Rightarrow> jsstring \<Rightarrow> jsstring \<Rightarrow> bool" where
  "firstOccurrence shape h pre u post \<longleftrightarrow>
     h = pre @ u @ post \<and> shape u \<and>
     (\<forall>pre' u' post'. h = pre' @ u' @ post' \<and> shape u' \<longrightarrow> length pre \<le> length pre')"

text \<open>A literal that does not start with white space, in either letter case.\<close>

definition startsPlain :: "jsstring \<Rightarrow> bool" where
  "startsPlain l \<longleftrightarrow>
     l \<noteq> [] \<and> (\<forall>x. canonicalize True x = canonicalize True (hd l) \<longrightarrow> \<not> isWhiteSpace x)"

text \<open>A document with a keywords tag.\<close>

definition keywordsDoc :: jsstring where
  \<open>keywordsDoc = js ''<head><meta  name="keywords" content="old"></head>''\<close>

text \<open>A product found by the lookups: by its slug, or by its identifier after the lookup by
  slug has found nothing.\<close>

definition found :: "'p collaborators \<Rightarrow> jsstring \<Rightarrow> 'p \<Rightarrow> bool" where
  "found env slug product \<longleftrightarrow>
     findOne env slug = Inr (Some product)
     \<or> (findOne env slug = Inr None \<and> findById env slug = Inr (Some product))"

text \<open>A document \<open>h'\<close> is \<open>h\<close> with the leftmost text of a shape replaced by a template, the
  \<^verbatim>\<open>$\<close> patterns of the template expanded; \<open>h\<close> itself when it has no text of the shape.\<close>

definition replacedFirst :: "(jsstring \<Rightarrow> bool) \<Rightarrow> jsstring \<Rightarrow> jsstring \<Rightarrow> jsstring \<Rightarrow> bool" where
  "replacedFirst shape template h h' \<longleftrightarrow>
     (noOccurrence shape h \<and> h' = h)
     \<or> (\<exists>pre u post. firstOccurrence shape h pre u post
           \<and> h' = pre @ getSubstitution u h (length pre) [] template @ post)"

text \<open>The conditional-replace policy for one tag: with the attribute text in the document the
  leftmost tag of the shape is replaced, without it the document stays as it is.\<close>

definition conditionalReplace ::
  "string \<Rightarrow> string \<Rightarrow> string \<Rightarrow> jsstring \<Rightarrow> jsstring \<Rightarrow> jsstring \<Rightarrow> bool" where
  "conditionalReplace opening attr valueAttr template h h' \<longleftrightarrow>
     (if sublist (js attr) h then replacedFirst (tagShape opening attr valueAttr) template h h'
      else h' = h)"

text \<open>The policy for the keywords: nothing for a missing or empty value; with
  \<^verbatim>\<open>name="keywords"\<close> in the document the leftmost keywords tag is replaced; without it the new
  tag goes, after four spaces and before a line feed, right before the leftmost
  \<^verbatim>\<open></head>\<close>, if there is one.\<close>

definition keywordsPolicy :: "jsval \<Rightarrow> jsstring \<Rightarrow> jsstring \<Rightarrow> bool" where
  \<open>keywordsPolicy kw h h' \<longleftrightarrow>
     (case kw of
        Undefined \<Rightarrow> h' = h
      | Str v \<Rightarrow>
          if v = [] then h' = h
          else if sublist (js ''name="keywords"'') h
          then replacedFirst (tagShape ''<meta'' ''name="keywords"'' ''content="'')
                 (js ''<meta name="keywords" content="'' @ escapeQuot v @ js ''" />'') h h'
          else if sublist (js ''</head>'') h
          then (\<exists>pre post. firstOccurrence (\<lambda>w. w = js ''</head>'') h pre (js ''</head>'') post
                  \<and> h' = pre @ js ''    <meta name="keywords" content="'' @ escapeQuot v
                            @ js ''" />\<newline>'' @ js ''</head>'' @ post)
          else h' = h)\<close>




text \<open>A document whose keywords tag has the content before the name, and one whose keywords
  tag has the name in upper case.\<close>

definition contentFirstDoc :: jsstring where
  \<open>contentFirstDoc = (js ''<head><meta content="old" name="keywords"></head>'')\<close>

definition upperCaseDoc :: jsstring where
  \<open>upperCaseDoc = (js ''<head><meta NAME="keywords" content="old"></head>'')\<close>

text \<open>A tag-set whose description has a dollar sign before a double quote.\<close>

definition pricesTagSet :: seoData where
  \<open>pricesTagSet = mugTagSet\<lparr>description := Str (js ''Prices in "$"'')\<rparr>\<close>

section \<open>The matcher and the shapes it accepts\<close>

lemma rxm_Cat_Eps [simp]: "rxm ic (Cat Eps r) s = rxm ic r s"
  by (simp add: case_prod_unfold)

lemma rxm_Cat_One:
  "rxm ic (Cat (One c) r) s =
     (case s of [] \<Rightarrow> [] | x # xs \<Rightarrow> if clsMatch ic c x then rxm ic r xs else [])"
  by (cases s) (simp_all add: case_prod_unfold)

lemma rxm_Cat_cong: "rxm ic a s = rxm ic a' s' \<Longrightarrow> rxm ic (Cat a r) s = rxm ic (Cat a' r) s'"
  by simp

lemma rxm_Cat_Nil: "rxm ic a s = [] \<Longrightarrow> rxm ic (Cat a r) s = []"
  by simp

lemma str_Nil: "str [] = Eps"
  by (simp add: str_def)

lemma str_Cons: "str (c # w) = Cat (One (Lit (of_char c))) (str w)"
  by (simp add: str_def)

lemma js_Nil [simp]: "js [] = []"
  by (simp add: js_def)

lemma js_Cons: "js (c # w) = of_char c # js w"
  by (simp add: js_def)

lemma rxm_Cat_str:
  "rxm ic (Cat (str w) r) s =
     (case litMatch ic (js w) s of None \<Rightarrow> [] | Some s' \<Rightarrow> rxm ic r s')"
proof (induction w arbitrary: s)
  case Nil
  then show ?case by (simp add: str_Nil)
next
  case (Cons c w)
  show ?case
  proof (cases s)
    case Nil
    have "rxm ic (Cat (One (Lit (of_char c))) (str w)) [] = []"
      by (simp add: rxm_Cat_One)
    then show ?thesis using Nil by (simp add: js_Cons rxm_Cat_Nil str_Cons del: rxm.simps)
  next
    case s: (Cons x xs)
    show ?thesis
    proof (cases "canonicalize ic x = canonicalize ic (of_char c)")
      case True
      then have "rxm ic (Cat (One (Lit (of_char c))) (str w)) (x # xs) = rxm ic (str w) xs"
        by (simp add: rxm_Cat_One)
      then have "rxm ic (Cat (str (c # w)) r) s = rxm ic (Cat (str w) r) xs"
        unfolding s str_Cons by (rule rxm_Cat_cong)
      then show ?thesis using True s Cons.IH [of xs] by (simp add: js_Cons del: rxm.simps)
    next
      case False
      then have "rxm ic (Cat (One (Lit (of_char c))) (str w)) (x # xs) = []"
        by (simp add: rxm_Cat_One)
      then show ?thesis using False s by (simp add: js_Cons rxm_Cat_Nil str_Cons del: rxm.simps)
    qed
  qed
qed

lemma litMatch_False: "litMatch False w s = (if prefix w s then Some (drop (length w) s) else None)"
proof (induction w arbitrary: s)
  case Nil then show ?case by simp
next
  case (Cons c w) then show ?case by (cases s) (auto simp: canonicalize_def)
qed

lemma starTails_ne [simp]: "starTails p s \<noteq> []"
  by (induction s) auto

lemma starTails_hd: "hd (starTails p s) = dropWhile p s"
  by (induction s) auto

lemma starTails_iff: "t \<in> set (starTails p s) \<longleftrightarrow> (\<exists>u. s = u @ t \<and> list_all p u)"
proof (induction s)
  case Nil then show ?case by auto
next
  case (Cons x xs)
  show ?case
  proof
    assume "t \<in> set (starTails p (x # xs))"
    then consider "t = x # xs" | "p x" "t \<in> set (starTails p xs)" by (auto split: if_splits)
    then show "\<exists>u. x # xs = u @ t \<and> list_all p u"
    proof cases
      case 1 then show ?thesis by (intro exI[of _ "[]"]) simp
    next
      case 2
      then obtain u where "xs = u @ t" "list_all p u" using Cons.IH by auto
      then show ?thesis using 2 by (intro exI[of _ "x # u"]) simp
    qed
  next
    assume "\<exists>u. x # xs = u @ t \<and> list_all p u"
    then obtain u where u: "x # xs = u @ t" "list_all p u" by auto
    show "t \<in> set (starTails p (x # xs))"
    proof (cases u)
      case Nil then show ?thesis using u by auto
    next
      case (Cons y u')
      then have "p x" "xs = u' @ t" "list_all p u'" using u by auto
      then show ?thesis using Cons.IH by auto
    qed
  qed
qed

lemma rxm_accepts: "t \<in> snd ` set (rxm ic r s) \<longleftrightarrow> (\<exists>u. accepts ic r u \<and> s = u @ t)"
proof (induction r arbitrary: s t)
  case Eps then show ?case by auto
next
  case (One c)
  show ?case
  proof (cases s)
    case Nil then show ?thesis by auto
  next
    case (Cons x xs)
    show ?thesis using Cons by (auto simp: image_iff length_Suc_conv)
  qed
next
  case (Star c)
  then show ?case by (auto simp: image_iff starTails_iff)
next
  case (Plus c)
  show ?case
  proof (cases s)
    case Nil then show ?thesis by auto
  next
    case (Cons x xs)
    show ?thesis
    proof
      assume "t \<in> snd ` set (rxm ic (Plus c) s)"
      then have px: "clsMatch ic c x" and "t \<in> set (starTails (clsMatch ic c) xs)"
        using Cons by (auto split: if_splits)
      then obtain u where "xs = u @ t" "list_all (clsMatch ic c) u" by (auto simp: starTails_iff)
      then show "\<exists>u. accepts ic (Plus c) u \<and> s = u @ t"
        using px Cons by (intro exI[of _ "x # u"]) simp
    next
      assume "\<exists>u. accepts ic (Plus c) u \<and> s = u @ t"
      then obtain u where u: "u \<noteq> []" "list_all (clsMatch ic c) u" "s = u @ t" by auto
      then obtain u' where "u = x # u'" using Cons by (cases u) auto
      then have "clsMatch ic c x" "t \<in> set (starTails (clsMatch ic c) xs)"
        using u Cons by (auto simp: starTails_iff)
      then show "t \<in> snd ` set (rxm ic (Plus c) s)" using Cons by (auto simp: image_iff)
    qed
  qed
next
  case (Opt c)
  show ?case
  proof (cases s)
    case Nil then show ?thesis by auto
  next
    case (Cons x xs)
    show ?thesis using Cons by (auto simp: image_iff length_Suc_conv)
  qed
next
  case (Cat a b)
  show ?case
  proof
    assume "t \<in> snd ` set (rxm ic (Cat a b) s)"
    then obtain ca sa cb where "(ca, sa) \<in> set (rxm ic a s)" "(cb, t) \<in> set (rxm ic b sa)"
      by auto
    then have "sa \<in> snd ` set (rxm ic a s)" "t \<in> snd ` set (rxm ic b sa)" by force+
    then obtain u v where "accepts ic a u" "s = u @ sa" "accepts ic b v" "sa = v @ t"
      using Cat.IH by blast
    then show "\<exists>u. accepts ic (Cat a b) u \<and> s = u @ t"
      by (intro exI[of _ "u @ v"]) (auto intro: exI[of _ "length u"])
  next
    assume "\<exists>u. accepts ic (Cat a b) u \<and> s = u @ t"
    then obtain u k where u: "accepts ic a (take k u)" "accepts ic b (drop k u)" "s = u @ t"
      by auto
    then have "s = take k u @ (drop k u @ t)" by simp
    then have "drop k u @ t \<in> snd ` set (rxm ic a s)" using u Cat.IH(1) by blast
    moreover have "t \<in> snd ` set (rxm ic b (drop k u @ t))" using u Cat.IH(2) by blast
    ultimately show "t \<in> snd ` set (rxm ic (Cat a b) s)" by force
  qed
next
  case (Cap a)
  have "snd ` set (rxm ic (Cap a) s) = snd ` set (rxm ic a s)" by force
  then show ?case using Cap.IH by simp
qed

section \<open>The slug extractor computes the leading segment\<close>

lemma clsMatch_NoneOf_sep: "clsMatch False (NoneOf (js ''/?'')) = notSep"
  by (rule ext) (simp add: js_def canonicalize_def notSep_def)

lemma plus_cap_hd:
  "rxm ic (Cat (Cap (Plus c)) Eps) s =
     (case s of [] \<Rightarrow> []
      | x # xs \<Rightarrow> if clsMatch ic c x
          then map (\<lambda>t. ([take (length s - length t) s], t)) (starTails (clsMatch ic c) xs)
          else [])"
  by (cases s) (simp_all add: comp_def)

lemma length_takeWhile_dropWhile: "length (takeWhile p xs) + length (dropWhile p xs) = length xs"
  by (metis length_append takeWhile_dropWhile_id)

lemma extractProductSlug_eq:
  "extractProductSlug pathname =
     (if prefix (js ''/products/'') pathname \<and> takeWhile notSep (drop 10 pathname) \<noteq> []
      then Some (takeWhile notSep (drop 10 pathname)) else None)"
proof (cases "prefix (js ''/products/'') pathname")
  case False
  then show ?thesis
    by (simp add: extractProductSlug_def regExpExec_def matchAt_def slugRx_def cat_def
        rxm_Cat_str litMatch_False del: rxm.simps)
next
  case True
  have len: "length (js ''/products/'') = 10" by (simp add: js_def)
  show ?thesis
  proof (cases "drop 10 pathname")
    case Nil
    then show ?thesis using True
      by (simp add: extractProductSlug_def regExpExec_def matchAt_def slugRx_def cat_def
          rxm_Cat_str litMatch_False len plus_cap_hd del: rxm.simps)
  next
    case (Cons x xs)
    have hd_map: "\<And>f xs. xs \<noteq> [] \<Longrightarrow> map f xs = f (hd xs) # map f (tl xs)"
      by (metis list.collapse list.simps(9))
    have tw: "Suc (length xs) - length (dropWhile notSep xs) = Suc (length (takeWhile notSep xs))"
      using length_takeWhile_dropWhile [of notSep xs] by arith
    show ?thesis using True Cons
      by (simp add: extractProductSlug_def regExpExec_def matchAt_def slugRx_def cat_def
          rxm_Cat_str litMatch_False len plus_cap_hd clsMatch_NoneOf_sep
          hd_map [OF starTails_ne] starTails_hd tw takeWhile_eq_take [symmetric] del: rxm.simps)
  qed
qed

lemma extractProductSlug_Some_iff:
  "extractProductSlug pathname = Some slug \<longleftrightarrow>
     (\<exists>rest. pathname = js ''/products/'' @ slug @ rest \<and> slug \<noteq> [] \<and>
        47 \<notin> set slug \<and> 63 \<notin> set slug \<and> (rest = [] \<or> hd rest = 47 \<or> hd rest = 63))"
proof
  assume a: "extractProductSlug pathname = Some slug"
  let ?t = "drop 10 pathname"
  have len: "length (js ''/products/'') = 10" by (simp add: js_def)
  from a have p: "prefix (js ''/products/'') pathname" and ne: "slug \<noteq> []"
    and sl: "slug = takeWhile notSep ?t"
    by (auto simp: extractProductSlug_eq split: if_splits)
  have 1: "pathname = js ''/products/'' @ slug @ dropWhile notSep ?t"
    using p sl len by (metis append_eq_conv_conj prefix_def takeWhile_dropWhile_id)
  have 2: "47 \<notin> set slug \<and> 63 \<notin> set slug"
    using sl by (metis notSep_def set_takeWhileD)
  have 3: "dropWhile notSep ?t = [] \<or> hd (dropWhile notSep ?t) = 47 \<or> hd (dropWhile notSep ?t) = 63"
    by (metis hd_dropWhile notSep_def)
  show "\<exists>rest. pathname = js ''/products/'' @ slug @ rest \<and> slug \<noteq> [] \<and>
        47 \<notin> set slug \<and> 63 \<notin> set slug \<and> (rest = [] \<or> hd rest = 47 \<or> hd rest = 63)"
    using 1 2 3 ne by blast
next
  assume "\<exists>rest. pathname = js ''/products/'' @ slug @ rest \<and> slug \<noteq> [] \<and>
        47 \<notin> set slug \<and> 63 \<notin> set slug \<and> (rest = [] \<or> hd rest = 47 \<or> hd rest = 63)"
  then obtain rest where r: "pathname = js ''/products/'' @ slug @ rest" "slug \<noteq> []"
    "47 \<notin> set slug" "63 \<notin> set slug" "rest = [] \<or> hd rest = 47 \<or> hd rest = 63" by blast
  have len: "length (js ''/products/'') = 10" by (simp add: js_def)
  have d: "drop 10 pathname = slug @ rest" using r(1) len by simp
  have all: "\<forall>x\<in>set slug. notSep x" using r(3,4) by (auto simp: notSep_def)
  have "takeWhile notSep (slug @ rest) = slug"
  proof (cases rest)
    case Nil then show ?thesis using all by simp
  next
    case (Cons y ys)
    then have "\<not> notSep y" using r(5) by (auto simp: notSep_def)
    then show ?thesis using all Cons by (simp add: takeWhile_tail)
  qed
  then show "extractProductSlug pathname = Some slug"
    using r(1,2) d by (simp add: extractProductSlug_eq)
qed

lemma extractProductSlug_None_iff:
  "extractProductSlug pathname = None \<longleftrightarrow>
     \<not> (\<exists>c rest. pathname = js ''/products/'' @ c # rest \<and> c \<noteq> 47 \<and> c \<noteq> 63)"
proof -
  have len: "length (js ''/products/'') = 10" by (simp add: js_def)
  have "extractProductSlug pathname \<noteq> None \<longleftrightarrow>
     (\<exists>c rest. pathname = js ''/products/'' @ c # rest \<and> c \<noteq> 47 \<and> c \<noteq> 63)"
  proof
    assume "extractProductSlug pathname \<noteq> None"
    then have p: "prefix (js ''/products/'') pathname" and t: "takeWhile notSep (drop 10 pathname) \<noteq> []"
      by (auto simp: extractProductSlug_eq split: if_splits)
    from t obtain c rest where d: "drop 10 pathname = c # rest" "notSep c"
      by (cases "drop 10 pathname") (auto split: if_splits)
    have "pathname = js ''/products/'' @ c # rest"
      using p d(1) len by (metis append_eq_conv_conj prefix_def)
    then show "\<exists>c rest. pathname = js ''/products/'' @ c # rest \<and> c \<noteq> 47 \<and> c \<noteq> 63"
      using d(2) by (auto simp: notSep_def)
  next
    assume "\<exists>c rest. pathname = js ''/products/'' @ c # rest \<and> c \<noteq> 47 \<and> c \<noteq> 63"
    then obtain c rest where r: "pathname = js ''/products/'' @ c # rest" "c \<noteq> 47" "c \<noteq> 63"
      by blast
    then have "drop 10 pathname = c # rest" using len by simp
    then show "extractProductSlug pathname \<noteq> None"
      using r by (simp add: extractProductSlug_eq notSep_def)
  qed
  then show ?thesis by blast
qed

section \<open>Claims on the slug extractor and the lookups\<close>


lemma extractProductSlug_nonempty: "extractProductSlug pathname = Some slug \<Longrightarrow> slug \<noteq> []"
  using extractProductSlug_Some_iff by blast

text \<open>
  Claim C9. The slug extractor returns a slug exactly when the path is \<^verbatim>\<open>/products/\<close>, then
  the slug, then the rest, where the slug is not empty, holds neither \<^verbatim>\<open>/\<close> nor \<^verbatim>\<open>?\<close>, and
  the rest is empty or starts with one of the two; the slug is that part of the path as it
  stands, in its own letter case and with its percent signs. It returns nothing exactly when
  the path is not \<^verbatim>\<open>/products/\<close> followed by a character other than \<^verbatim>\<open>/\<close> and \<^verbatim>\<open>?\<close>.
\<close>

theorem slug_extractor_shape:
  "(extractProductSlug pathname = Some slug \<longleftrightarrow>
      (\<exists>rest. pathname = js ''/products/'' @ slug @ rest \<and> slug \<noteq> [] \<and>
         47 \<notin> set slug \<and> 63 \<notin> set slug \<and> (rest = [] \<or> hd rest = 47 \<or> hd rest = 63)))
   \<and> (extractProductSlug pathname = None \<longleftrightarrow>
      \<not> (\<exists>c rest. pathname = js ''/products/'' @ c # rest \<and> c \<noteq> 47 \<and> c \<noteq> 63))"
  using extractProductSlug_Some_iff extractProductSlug_None_iff by blast

text \<open>The claim at a path with upper case and a percent escape, and at \<^verbatim>\<open>/about\<close>.\<close>

theorem slug_extractor_shape_witness:
  "extractProductSlug (js ''/products/Blue%20Mug?ref=1'') = Some (js ''Blue%20Mug'')
   \<and> extractProductSlug (js ''/about'') = None"
proof -
  have 1: "js ''/products/Blue%20Mug?ref=1'' = js ''/products/'' @ js ''Blue%20Mug'' @ js ''?ref=1''"
    by (simp add: js_def)
  have 2: "js ''Blue%20Mug'' \<noteq> [] \<and> 47 \<notin> set (js ''Blue%20Mug'') \<and> 63 \<notin> set (js ''Blue%20Mug'')
     \<and> hd (js ''?ref=1'') = 63"
    by (simp add: js_def)
  have 3: "\<not> (\<exists>c rest. js ''/about'' = js ''/products/'' @ c # rest \<and> c \<noteq> 47 \<and> c \<noteq> 63)"
    by (simp add: js_def)
  show ?thesis
    using slug_extractor_shape [of "js ''/products/Blue%20Mug?ref=1''" "js ''Blue%20Mug''"]
      slug_extractor_shape [of "js ''/about''" "[]"] 1 2 3 by blast
qed

text \<open>
  Claim C10. A slug the extractor returns is not empty and holds neither \<^verbatim>\<open>/\<close> nor \<^verbatim>\<open>?\<close>.
  When nothing, a \<^verbatim>\<open>/\<close> or a \<^verbatim>\<open>?\<close> follows \<^verbatim>\<open>/products/\<close>, the extractor returns
  nothing, and the injector returns its input and makes no lookup.
\<close>

theorem slug_never_empty:
  "(extractProductSlug pathname = Some slug \<longrightarrow> slug \<noteq> [] \<and> 47 \<notin> set slug \<and> 63 \<notin> set slug)
   \<and> ((rest = [] \<or> hd rest = 47 \<or> hd rest = 63) \<longrightarrow>
        extractProductSlug (js ''/products/'' @ rest) = None
        \<and> injectMetaTags env html (js ''/products/'' @ rest) baseUrl = (html, []))"
proof -
  have "extractProductSlug (js ''/products/'' @ rest) = None" if "rest = [] \<or> hd rest = 47 \<or> hd rest = 63"
  proof -
    have "\<not> (\<exists>c r. js ''/products/'' @ rest = js ''/products/'' @ c # r \<and> c \<noteq> 47 \<and> c \<noteq> 63)"
      using that by auto
    then show ?thesis using extractProductSlug_None_iff by blast
  qed
  moreover have "slug \<noteq> [] \<and> 47 \<notin> set slug \<and> 63 \<notin> set slug"
    if "extractProductSlug pathname = Some slug"
    using that extractProductSlug_Some_iff by blast
  ultimately show ?thesis
    by (simp add: injectMetaTags_def)
qed

text \<open>The claim at \<^verbatim>\<open>/products/\<close>, \<^verbatim>\<open>/products//x\<close> and \<^verbatim>\<open>/products/a\<close>.\<close>

theorem slug_never_empty_witness:
  "extractProductSlug (js ''/products/'') = None
   \<and> extractProductSlug (js ''/products//x'') = None
   \<and> injectMetaTags nothingFound shopDoc (js ''/products//x'') shopUrl = (shopDoc, [])
   \<and> extractProductSlug (js ''/products/a'') = Some (js ''a'') \<and> js ''a'' \<noteq> []"
proof -
  have a: "extractProductSlug (js ''/products/a'') = Some (js ''a'')"
    by (simp add: extractProductSlug_eq js_def notSep_def)
  have e: "js ''/products/'' = js ''/products/'' @ []" "js ''/products//x'' = js ''/products/'' @ js ''/x''"
    by (simp_all add: js_def)
  have h: "hd (js ''/x'') = 47" by (simp add: js_def)
  show ?thesis
    using slug_never_empty [of "js ''/products/a''" "js ''a''" "[]" nothingFound shopDoc shopUrl]
      slug_never_empty [of "js ''/products/a''" "js ''a''" "js ''/x''" nothingFound shopDoc shopUrl] a e h
    by simp
qed

text \<open>
  Claim C7. For a path that is not \<^verbatim>\<open>/products/\<close> followed by a character other than
  \<^verbatim>\<open>/\<close> and \<^verbatim>\<open>?\<close>, the injector returns its input document, and there is no event: no
  lookup is made.
\<close>

theorem identity_off_product_paths:
  assumes "\<not> (\<exists>c rest. pathname = js ''/products/'' @ c # rest \<and> c \<noteq> 47 \<and> c \<noteq> 63)"
  shows "injectMetaTags env html pathname baseUrl = (html, [])"
proof -
  have "extractProductSlug pathname = None"
    using assms extractProductSlug_None_iff by blast
  then show ?thesis by (simp add: injectMetaTags_def)
qed

text \<open>The claim at the path \<^verbatim>\<open>/about\<close>.\<close>

theorem identity_off_product_paths_witness:
  "injectMetaTags nothingFound shopDoc (js ''/about'') shopUrl = (shopDoc, [])"
proof -
  have "\<not> (\<exists>c rest. js ''/about'' = js ''/products/'' @ c # rest \<and> c \<noteq> 47 \<and> c \<noteq> 63)"
    by (simp add: js_def)
  then show ?thesis by (rule identity_off_product_paths)
qed



section \<open>Substrings, escaping and replacement templates\<close>

lemma includes_js_iff: "includes_js h n \<longleftrightarrow> sublist n h"
proof (induction h)
  case Nil then show ?case by simp
next
  case (Cons c cs) then show ?case by (simp add: sublist_Cons_right)
qed

lemma indexOf_None_iff: "indexOf h n = None \<longleftrightarrow> \<not> includes_js h n"
  by (induction h) auto

lemma indexOf_Some:
  "indexOf h n = Some i \<Longrightarrow>
     i \<le> length h \<and> prefix n (drop i h) \<and> (\<forall>j<i. \<not> prefix n (drop j h))"
proof (induction h arbitrary: i)
  case Nil then show ?case by (auto split: if_splits)
next
  case (Cons c cs)
  show ?case
  proof (cases "prefix n (c # cs)")
    case True then show ?thesis using Cons.prems by simp
  next
    case False
    then obtain k where k: "indexOf cs n = Some k" "i = Suc k" using Cons.prems by auto
    have "\<And>j. j < Suc k \<Longrightarrow> \<not> prefix n (drop j (c # cs))"
    proof -
      fix j assume "j < Suc k"
      then show "\<not> prefix n (drop j (c # cs))"
        using False Cons.IH [OF k(1)] by (cases j) auto
    qed
    then show ?thesis using Cons.IH [OF k(1)] k(2) by auto
  qed
qed

lemma escapeQuot_no_quote: "34 \<notin> set (escapeQuot s)"
  by (induction s) (auto simp: js_def)

lemma escapeQuot_concat:
  "escapeQuot s = concat (map (\<lambda>c. if c = 34 then js ''&quot;'' else [c]) s)"
  by (induction s) auto

lemma getSubstitution_plain: "36 \<notin> set t \<Longrightarrow> getSubstitution m s p caps t = t"
proof (induction t rule: induct_list012)
  case 1 then show ?case by simp
next
  case (2 c) then show ?case by simp
next
  case (3 c d t)
  then have "c \<noteq> 36" "getSubstitution m s p caps (d # t) = d # t" by auto
  then show ?case by (simp del: getSubstitution.simps(3) add: getSubstitution.simps(3) [of m s p caps c d t])
qed

section \<open>The search finds the leftmost occurrence\<close>

lemma rxm_Nil_iff: "rxm ic r s = [] \<longleftrightarrow> \<not> (\<exists>u t. accepts ic r u \<and> s = u @ t)"
proof -
  have "rxm ic r s = [] \<longleftrightarrow> snd ` set (rxm ic r s) = {}" by simp
  also have "\<dots> \<longleftrightarrow> (\<forall>t. t \<notin> snd ` set (rxm ic r s))" by auto
  also have "\<dots> \<longleftrightarrow> \<not> (\<exists>u t. accepts ic r u \<and> s = u @ t)"
    unfolding rxm_accepts by blast
  finally show ?thesis .
qed

lemma matchAt_None_iff:
  "matchAt r i s = None \<longleftrightarrow> \<not> (\<exists>u t. accepts (ignoreCase r) (body r) u \<and> s = u @ t)"
  unfolding rxm_Nil_iff [symmetric] by (simp add: matchAt_def split: list.splits)

lemma matchAt_Some:
  assumes "matchAt r i s = Some m"
  shows "index m = i \<and> (\<exists>rest. s = matched m @ rest) \<and> accepts (ignoreCase r) (body r) (matched m)"
proof -
  from assms obtain caps rest tl where
    rx: "rxm (ignoreCase r) (body r) s = (caps, rest) # tl"
    and m: "m = \<lparr>index = i, matched = take (length s - length rest) s, captures = caps\<rparr>"
    by (auto simp: matchAt_def split: list.splits)
  from rx have "rest \<in> snd ` set (rxm (ignoreCase r) (body r) s)" by force
  then obtain u where u: "accepts (ignoreCase r) (body r) u" "s = u @ rest"
    unfolding rxm_accepts by blast
  then have "take (length s - length rest) s = u" by simp
  then show ?thesis using m u by auto
qed

lemma searchFrom_None:
  "searchFrom r i s = None \<longleftrightarrow> (\<forall>k \<le> length s. matchAt r (i + k) (drop k s) = None)"
proof (induction s arbitrary: i)
  case Nil then show ?case by simp
next
  case (Cons x xs)
  have indep: "\<And>j j' t. matchAt r j t = None \<longleftrightarrow> matchAt r j' t = None"
    by (simp add: matchAt_None_iff)
  show ?case
  proof
    assume a: "searchFrom r i (x # xs) = None"
    then have 0: "matchAt r i (x # xs) = None" and 1: "searchFrom r (Suc i) xs = None"
      by (auto split: option.splits)
    show "\<forall>k \<le> length (x # xs). matchAt r (i + k) (drop k (x # xs)) = None"
    proof (intro allI impI)
      fix k assume "k \<le> length (x # xs)"
      then show "matchAt r (i + k) (drop k (x # xs)) = None"
        using 0 1 Cons.IH [of "Suc i"] by (cases k) auto
    qed
  next
    assume a: "\<forall>k \<le> length (x # xs). matchAt r (i + k) (drop k (x # xs)) = None"
    then have 0: "matchAt r i (x # xs) = None" by force
    have "\<forall>k \<le> length xs. matchAt r (Suc i + k) (drop k xs) = None"
    proof (intro allI impI)
      fix k assume "k \<le> length xs"
      then show "matchAt r (Suc i + k) (drop k xs) = None" using a [rule_format, of "Suc k"] by simp
    qed
    then show "searchFrom r i (x # xs) = None" using 0 Cons.IH [of "Suc i"] by simp
  qed
qed

lemma searchFrom_Some:
  "searchFrom r i s = Some m \<Longrightarrow>
     \<exists>k \<le> length s. matchAt r (i + k) (drop k s) = Some m
        \<and> (\<forall>j < k. matchAt r (i + j) (drop j s) = None)"
proof (induction s arbitrary: i)
  case Nil then show ?case by simp
next
  case (Cons x xs)
  show ?case
  proof (cases "matchAt r i (x # xs)")
    case (Some m')
    then have "m' = m" using Cons.prems by simp
    then show ?thesis using Some by (intro exI [of _ 0]) simp
  next
    case None
    then have "searchFrom r (Suc i) xs = Some m" using Cons.prems by simp
    then obtain k where k: "k \<le> length xs" "matchAt r (Suc i + k) (drop k xs) = Some m"
      "\<forall>j < k. matchAt r (Suc i + j) (drop j xs) = None"
      using Cons.IH by blast
    have "\<forall>j < Suc k. matchAt r (i + j) (drop j (x # xs)) = None"
    proof (intro allI impI)
      fix j assume "j < Suc k"
      then show "matchAt r (i + j) (drop j (x # xs)) = None"
        using None k(3) by (cases j) auto
    qed
    then show ?thesis using k(1,2) by (intro exI [of _ "Suc k"]) simp
  qed
qed

lemma matchAt_drop_None:
  "k \<le> length h \<Longrightarrow> matchAt r i (drop k h) = None \<longleftrightarrow>
     \<not> (\<exists>pre u post. occurs r h pre u post \<and> length pre = k)"
proof -
  assume k: "k \<le> length h"
  have "(\<exists>u t. accepts (ignoreCase r) (body r) u \<and> drop k h = u @ t) \<longleftrightarrow>
        (\<exists>pre u post. occurs r h pre u post \<and> length pre = k)"
  proof
    assume "\<exists>u t. accepts (ignoreCase r) (body r) u \<and> drop k h = u @ t"
    then obtain u t where "accepts (ignoreCase r) (body r) u" "drop k h = u @ t" by blast
    then have "occurs r h (take k h) u t \<and> length (take k h) = k"
      using k by (simp add: occurs_def) (metis append_take_drop_id)
    then show "\<exists>pre u post. occurs r h pre u post \<and> length pre = k" by blast
  next
    assume "\<exists>pre u post. occurs r h pre u post \<and> length pre = k"
    then obtain pre u post where "h = pre @ u @ post" "accepts (ignoreCase r) (body r) u" "length pre = k"
      by (auto simp: occurs_def)
    then show "\<exists>u t. accepts (ignoreCase r) (body r) u \<and> drop k h = u @ t" by auto
  qed
  then show ?thesis by (simp add: matchAt_None_iff)
qed

lemma regExpExec_None:
  assumes "\<not> anchored r"
  shows "regExpExec r h = None \<longleftrightarrow> \<not> (\<exists>pre u post. occurs r h pre u post)"
proof -
  have "regExpExec r h = None \<longleftrightarrow> (\<forall>k \<le> length h. matchAt r k (drop k h) = None)"
    using assms by (simp add: regExpExec_def searchFrom_None)
  also have "\<dots> \<longleftrightarrow> (\<forall>k \<le> length h. \<not> (\<exists>pre u post. occurs r h pre u post \<and> length pre = k))"
    using matchAt_drop_None by blast
  also have "\<dots> \<longleftrightarrow> \<not> (\<exists>pre u post. occurs r h pre u post)"
  proof -
    have "length pre \<le> length h" if "occurs r h pre u post" for pre u post
      using that by (simp add: occurs_def)
    then show ?thesis by blast
  qed
  finally show ?thesis .
qed

lemma regExpExec_Some:
  assumes "\<not> anchored r" "regExpExec r h = Some m"
  shows "occurs r h (take (index m) h) (matched m) (drop (index m + length (matched m)) h)
         \<and> index m \<le> length h
         \<and> (\<forall>pre u post. occurs r h pre u post \<longrightarrow> index m \<le> length pre)"
proof -
  from assms obtain k where k: "k \<le> length h" "matchAt r k (drop k h) = Some m"
    "\<forall>j < k. matchAt r j (drop j h) = None"
    using searchFrom_Some [of r 0 h m] by (auto simp: regExpExec_def)
  from matchAt_Some [OF k(2)] obtain rest where
    m: "index m = k" "drop k h = matched m @ rest" "accepts (ignoreCase r) (body r) (matched m)"
    by blast
  have h: "h = take k h @ matched m @ rest" using m(2) by (metis append_take_drop_id)
  have "drop (k + length (matched m)) h = rest"
    using m(2) by (metis add.commute append_eq_conv_conj drop_drop)
  then have 1: "occurs r h (take (index m) h) (matched m) (drop (index m + length (matched m)) h)"
    using h m(1,3) by (simp add: occurs_def)
  have 2: "index m \<le> length pre" if "occurs r h pre u post" for pre u post
  proof (rule ccontr)
    assume "\<not> index m \<le> length pre"
    then have lt: "length pre < k" using m(1) by simp
    then have "matchAt r (length pre) (drop (length pre) h) = None" using k(3) by blast
    moreover have "length pre \<le> length h" using lt k(1) by simp
    ultimately show False using that matchAt_drop_None by blast
  qed
  show ?thesis using 1 2 k(1) m(1) by blast
qed

lemma rxm_groups: "(c, t) \<in> set (rxm ic r s) \<Longrightarrow> length c = groups r"
proof (induction r arbitrary: c t s)
  case (Cat a b)
  then show ?case by fastforce
next
  case (Cap a)
  then show ?case by fastforce
qed (auto split: list.splits if_splits)

lemma groups_str: "groups (str w) = 0"
  by (induction w) (simp_all add: str_Nil str_Cons)

lemma groups_titleRx: "groups (body titleRx) = 0"
  by (simp add: titleRx_def cat_def groups_str)

lemma groups_tagRx: "groups (body (tagRx a b c)) = 0"
  by (simp add: tagRx_def cat_def groups_str)

lemma matchAt_captures:
  "matchAt r i s = Some m \<Longrightarrow> length (captures m) = groups (body r)"
proof -
  assume "matchAt r i s = Some m"
  then obtain rest tl where "rxm (ignoreCase r) (body r) s = (captures m, rest) # tl"
    by (auto simp: matchAt_def split: list.splits)
  then have "(captures m, rest) \<in> set (rxm (ignoreCase r) (body r) s)" by simp
  then show ?thesis by (rule rxm_groups)
qed

lemma regExpExec_captures:
  "regExpExec r h = Some m \<Longrightarrow> length (captures m) = groups (body r)"
  by (auto simp: regExpExec_def split: if_splits dest: matchAt_captures searchFrom_Some)

lemma jsReplace_no_occurrence:
  assumes "\<not> anchored r" "\<not> (\<exists>pre u post. occurs r h pre u post)"
  shows "jsReplace r t h = h"
  using assms regExpExec_None [of r h] by (simp add: jsReplace_def)

lemma jsReplace_first_occurrence:
  assumes "\<not> anchored r" "groups (body r) = 0" "occurs r h pre0 u0 post0"
  shows "\<exists>pre u post. occurs r h pre u post
           \<and> (\<forall>pre' u' post'. occurs r h pre' u' post' \<longrightarrow> length pre \<le> length pre')
           \<and> jsReplace r t h = pre @ getSubstitution u h (length pre) [] t @ post"
proof -
  from assms(1,3) obtain m where m: "regExpExec r h = Some m"
    using regExpExec_None [of r h] by (cases "regExpExec r h") blast+
  let ?pre = "take (index m) h" and ?post = "drop (index m + length (matched m)) h"
  from regExpExec_Some [OF assms(1) m] have
    o: "occurs r h ?pre (matched m) ?post" and le: "index m \<le> length h"
    and first: "\<forall>pre u post. occurs r h pre u post \<longrightarrow> index m \<le> length pre"
    by blast+
  have c: "captures m = []" using regExpExec_captures [OF m] assms(2) by simp
  have len: "length ?pre = index m" using le by simp
  have "jsReplace r t h = ?pre @ getSubstitution (matched m) h (length ?pre) [] t @ ?post"
    using m c len by (simp add: jsReplace_def)
  then show ?thesis using o first len by metis
qed

lemma replaceTag_Str:
  "replaceTag r opening (Str v) closing html =
     Inr (jsReplace r (js opening @ escapeQuot v @ js closing) html)"
  by (simp add: replaceTag_def)

section \<open>Claims on the substitutions\<close>

lemma count_escapeQuot: "count_list (escapeQuot v) 34 = 0"
  using escapeQuot_no_quote [of v] by (simp add: count_list_0_iff)

text \<open>
  Claim C4 says that an error during lookup, generation or substitution gives back the
  input document, never a partly substituted one. The \<^verbatim>\<open>catch\<close> returns the variable
  \<^verbatim>\<open>html\<close>, which the substitutions have assigned by then: with a tag-set whose description
  is missing, the title is replaced, the description step raises a TypeError, and the
  document with the new title is returned.
\<close>

theorem catch_returns_partly_substituted_document:
  \<open>injectMetaTags (mugShop brokenTagSet) shopDoc (js ''/products/mug'') shopUrl =
     (js ''<head><title>Mug | uni10</title><meta name="description" content="Shop"/></head>'',
      [CallFindOne (js ''mug''), ConsoleError TypeError])
   \<and> fst (injectMetaTags (mugShop brokenTagSet) shopDoc (js ''/products/mug'') shopUrl) \<noteq> shopDoc\<close>
  by code_simp

text \<open>An error before the substitutions does give the input back.\<close>

lemma lookup_or_generation_error_returns_input:
  assumes "extractProductSlug pathname = Some slug"
    and "findOne env slug = Inl e \<or> (findOne env slug = Inr None \<and> findById env slug = Inl e)
     \<or> (\<forall>p. generateProductSeoTags env p baseUrl = Inl e)
     \<or> (\<forall>sd. createMetaTagsHtml env sd = Inl e)"
  shows "fst (injectMetaTags env html pathname baseUrl) = html"
  using assms
  by (auto simp: injectMetaTags_def injectProduct_def split: option.splits sum.splits)

lemma accepts_Cat:
  "accepts ic (Cat a b) w \<longleftrightarrow> (\<exists>u v. w = u @ v \<and> accepts ic a u \<and> accepts ic b v)"
proof
  assume "accepts ic (Cat a b) w"
  then obtain k where "accepts ic a (take k w)" "accepts ic b (drop k w)" by auto
  then show "\<exists>u v. w = u @ v \<and> accepts ic a u \<and> accepts ic b v"
    by (intro exI [of _ "take k w"] exI [of _ "drop k w"]) simp
next
  assume "\<exists>u v. w = u @ v \<and> accepts ic a u \<and> accepts ic b v"
  then obtain u v where "w = u @ v" "accepts ic a u" "accepts ic b v" by blast
  then show "accepts ic (Cat a b) w"
    by (auto intro!: exI [of _ "length u"])
qed

declare accepts.simps(6) [simp del]

lemma sameText_Nil [simp]: "sameText ic u [] \<longleftrightarrow> u = []"
  by (simp add: sameText_def)

lemma sameText_Cons:
  "sameText ic u (c # w) \<longleftrightarrow>
     (\<exists>x u'. u = x # u' \<and> canonicalize ic x = canonicalize ic c \<and> sameText ic u' w)"
  by (cases u) (auto simp: sameText_def)

lemma sameText_length: "sameText ic a b \<Longrightarrow> length a = length b"
  by (metis length_map sameText_def)

lemma sameText_False [simp]: "sameText False a b \<longleftrightarrow> a = b"
proof -
  have "canonicalize False = id" by (rule ext) (simp add: canonicalize_def)
  then show ?thesis by (simp add: sameText_def)
qed

lemma accepts_str: "accepts ic (str w) u \<longleftrightarrow> sameText ic u (js w)"
proof (induction w arbitrary: u)
  case Nil then show ?case by (simp add: str_Nil)
next
  case (Cons c w)
  have "accepts ic (str (c # w)) u \<longleftrightarrow>
        (\<exists>a v. u = a @ v \<and> length a = 1 \<and> canonicalize ic (hd a) = canonicalize ic (of_char c)
           \<and> sameText ic v (js w))"
    by (simp add: str_Cons accepts_Cat Cons.IH)
  also have "\<dots> \<longleftrightarrow> (\<exists>x u'. u = x # u' \<and> canonicalize ic x = canonicalize ic (of_char c)
           \<and> sameText ic u' (js w))"
  proof
    assume "\<exists>a v. u = a @ v \<and> length a = 1 \<and> canonicalize ic (hd a) = canonicalize ic (of_char c)
           \<and> sameText ic v (js w)"
    then obtain a v where a: "u = a @ v" "length a = 1"
      "canonicalize ic (hd a) = canonicalize ic (of_char c)" "sameText ic v (js w)" by blast
    then obtain x where "a = [x]" by (cases a) auto
    then show "\<exists>x u'. u = x # u' \<and> canonicalize ic x = canonicalize ic (of_char c)
           \<and> sameText ic u' (js w)" using a by auto
  next
    assume "\<exists>x u'. u = x # u' \<and> canonicalize ic x = canonicalize ic (of_char c)
           \<and> sameText ic u' (js w)"
    then obtain x u' where "u = x # u'" "canonicalize ic x = canonicalize ic (of_char c)"
      "sameText ic u' (js w)" by blast
    then show "\<exists>a v. u = a @ v \<and> length a = 1 \<and> canonicalize ic (hd a) = canonicalize ic (of_char c)
           \<and> sameText ic v (js w)"
      by (intro exI [of _ "[x]"] exI [of _ u']) simp
  qed
  finally show ?case by (simp add: js_Cons sameText_Cons)
qed

lemma accepts_cat_Nil: "accepts ic (cat []) w \<longleftrightarrow> w = []"
  by (simp add: cat_def)

lemma accepts_cat_Cons:
  "accepts ic (cat (r # rs)) w \<longleftrightarrow> (\<exists>u v. w = u @ v \<and> accepts ic r u \<and> accepts ic (cat rs) v)"
  by (simp add: cat_def accepts_Cat)

lemma canonicalize_low: "c < 65 \<Longrightarrow> canonicalize ic x = c \<longleftrightarrow> x = c"
  by (auto simp: canonicalize_def)

lemma canonicalize_low_self: "c < 65 \<Longrightarrow> canonicalize ic c = c"
  by (auto simp: canonicalize_def)

lemma clsMatch_not_quote: \<open>clsMatch ic (NoneOf (js ''"'')) = (\<lambda>x. x \<noteq> 34)\<close>
  by (rule ext) (simp add: js_def canonicalize_low canonicalize_low_self)

lemma clsMatch_not_lt: \<open>clsMatch False (NoneOf (js ''<'')) = (\<lambda>x. x \<noteq> 60)\<close>
  by (rule ext) (simp add: js_def canonicalize_def)

lemma list_all_neq: "list_all (\<lambda>x. x \<noteq> a) c \<longleftrightarrow> a \<notin> set c"
  by (induction c) auto

lemma accepts_titleRx: "accepts False (body titleRx) u \<longleftrightarrow> titleShape u"
  by (simp add: titleRx_def accepts_cat_Cons accepts_cat_Nil accepts_str clsMatch_not_lt
      list_all_neq titleShape_def) blast

lemma clsMatch_Space: "clsMatch ic Space = isWhiteSpace"
  by (rule ext) simp

lemma accepts_Opt_slash: "accepts ic (Opt (Lit 47)) w \<longleftrightarrow> w = [] \<or> w = [47]"
proof (cases w)
  case Nil then show ?thesis by simp
next
  case (Cons x xs) then show ?thesis
    by (cases xs) (simp_all add: canonicalize_low canonicalize_low_self)
qed

lemma sameText_gt: "sameText ic x (js ''>'') \<longleftrightarrow> x = [62]"
  by (auto simp: js_def sameText_Cons canonicalize_low canonicalize_low_self)

lemma sameText_quote: \<open>sameText ic x (js ''"'') \<longleftrightarrow> x = [34]\<close>
  by (auto simp: js_def sameText_Cons canonicalize_low canonicalize_low_self)

lemma accepts_cat_ConsE:
  assumes "accepts ic (cat (r # rs)) w"
  obtains u v where "w = u @ v" "accepts ic r u" "accepts ic (cat rs) v"
  using assms accepts_cat_Cons by blast

lemma accepts_Plus_Space: "accepts ic (Plus Space) w \<longleftrightarrow> w \<noteq> [] \<and> list_all isWhiteSpace w"
  by (simp add: clsMatch_Space)

lemma accepts_Star_Space: "accepts ic (Star Space) w \<longleftrightarrow> list_all isWhiteSpace w"
  by (simp add: clsMatch_Space)

lemma accepts_Star_not_quote: \<open>accepts ic (Star (NoneOf (js ''"''))) w \<longleftrightarrow> 34 \<notin> set w\<close>
  by (simp add: clsMatch_not_quote list_all_neq)

lemma tagRx_body:
  \<open>body (tagRx opening attr valueAttr) =
     cat [str opening, Plus Space, str attr, Plus Space, str valueAttr,
          Star (NoneOf (js ''"'')), str ''"'', Star Space, Opt (Lit 47), str ''>'']\<close>
  by (simp add: tagRx_def)

lemma accepts_cat_ConsI:
  "accepts ic r u \<Longrightarrow> accepts ic (cat rs) v \<Longrightarrow> accepts ic (cat (r # rs)) (u @ v)"
  using accepts_cat_Cons by blast

lemma tagShapeI:
  assumes "sameText True tg (js opening)" "w1 \<noteq> []" "list_all isWhiteSpace w1"
    "sameText True a (js attr)" "w2 \<noteq> []" "list_all isWhiteSpace w2"
    "sameText True v (js valueAttr)" "34 \<notin> set c" "list_all isWhiteSpace w3"
    "sl = [] \<or> sl = [47]"
  shows "tagShape opening attr valueAttr (tg @ w1 @ a @ w2 @ v @ c @ [34] @ w3 @ sl @ [62])"
  unfolding tagShape_def
  apply (rule exI [of _ tg], rule exI [of _ w1], rule exI [of _ a], rule exI [of _ w2])
  apply (rule exI [of _ v], rule exI [of _ c], rule exI [of _ w3], rule exI [of _ sl])
  using assms by simp

lemma accepts_tagRx:
  "accepts True (body (tagRx opening attr valueAttr)) u \<longleftrightarrow> tagShape opening attr valueAttr u"
proof
  assume "accepts True (body (tagRx opening attr valueAttr)) u"
  then have \<open>accepts True (cat [str opening, Plus Space, str attr, Plus Space, str valueAttr,
          Star (NoneOf (js ''"'')), str ''"'', Star Space, Opt (Lit 47), str ''>'']) u\<close>
    by (simp only: tagRx_body)
  then obtain tg r1 where 1: "u = tg @ r1" "accepts True (str opening) tg"
    and k1: \<open>accepts True (cat [Plus Space, str attr, Plus Space, str valueAttr,
          Star (NoneOf (js ''"'')), str ''"'', Star Space, Opt (Lit 47), str ''>'']) r1\<close>
    by (rule accepts_cat_ConsE)
  from k1 obtain w1 r2 where 2: "r1 = w1 @ r2" "accepts True (Plus Space) w1"
    and k2: \<open>accepts True (cat [str attr, Plus Space, str valueAttr,
          Star (NoneOf (js ''"'')), str ''"'', Star Space, Opt (Lit 47), str ''>'']) r2\<close>
    by (rule accepts_cat_ConsE)
  from k2 obtain a r3 where 3: "r2 = a @ r3" "accepts True (str attr) a"
    and k3: \<open>accepts True (cat [Plus Space, str valueAttr,
          Star (NoneOf (js ''"'')), str ''"'', Star Space, Opt (Lit 47), str ''>'']) r3\<close>
    by (rule accepts_cat_ConsE)
  from k3 obtain w2 r4 where 4: "r3 = w2 @ r4" "accepts True (Plus Space) w2"
    and k4: \<open>accepts True (cat [str valueAttr,
          Star (NoneOf (js ''"'')), str ''"'', Star Space, Opt (Lit 47), str ''>'']) r4\<close>
    by (rule accepts_cat_ConsE)
  from k4 obtain v r5 where 5: "r4 = v @ r5" "accepts True (str valueAttr) v"
    and k5: \<open>accepts True (cat [Star (NoneOf (js ''"'')), str ''"'', Star Space, Opt (Lit 47),
          str ''>'']) r5\<close>
    by (rule accepts_cat_ConsE)
  from k5 obtain c r6 where 6: "r5 = c @ r6" \<open>accepts True (Star (NoneOf (js ''"''))) c\<close>
    and k6: \<open>accepts True (cat [str ''"'', Star Space, Opt (Lit 47), str ''>'']) r6\<close>
    by (rule accepts_cat_ConsE)
  from k6 obtain q r7 where 7: "r6 = q @ r7" \<open>accepts True (str ''"'') q\<close>
    and k7: \<open>accepts True (cat [Star Space, Opt (Lit 47), str ''>'']) r7\<close>
    by (rule accepts_cat_ConsE)
  from k7 obtain w3 r8 where 8: "r7 = w3 @ r8" "accepts True (Star Space) w3"
    and k8: \<open>accepts True (cat [Opt (Lit 47), str ''>'']) r8\<close>
    by (rule accepts_cat_ConsE)
  from k8 obtain sl r9 where 9: "r8 = sl @ r9" "accepts True (Opt (Lit 47)) sl"
    and k9: \<open>accepts True (cat [str ''>'']) r9\<close>
    by (rule accepts_cat_ConsE)
  from k9 obtain g r10 where 10: "r9 = g @ r10" \<open>accepts True (str ''>'') g\<close>
    and k10: \<open>accepts True (cat []) r10\<close>
    by (rule accepts_cat_ConsE)
  from k10 have 11: "r10 = []" by (simp add: accepts_cat_Nil)
  have q: "q = [34]" using 7(2) by (simp add: accepts_str sameText_quote)
  have g: "g = [62]" using 10(2) by (simp add: accepts_str sameText_gt)
  have u: "u = tg @ w1 @ a @ w2 @ v @ c @ [34] @ w3 @ sl @ [62]"
    using 1(1) 2(1) 3(1) 4(1) 5(1) 6(1) 7(1) 8(1) 9(1) 10(1) 11 q g by simp
  show "tagShape opening attr valueAttr u"
    unfolding u
    using 1(2) 2(2) 3(2) 4(2) 5(2) 6(2) 8(2) 9(2)
    by (intro tagShapeI)
      (simp_all add: accepts_str accepts_Plus_Space accepts_Star_Space accepts_Star_not_quote
        accepts_Opt_slash del: accepts.simps)
next
  assume "tagShape opening attr valueAttr u"
  then obtain tg w1 a w2 v c w3 sl where
    u: "u = tg @ w1 @ a @ w2 @ v @ c @ [34] @ w3 @ sl @ [62]" and
    f: "sameText True tg (js opening)" "w1 \<noteq> [] \<and> list_all isWhiteSpace w1"
    "sameText True a (js attr)" "w2 \<noteq> [] \<and> list_all isWhiteSpace w2"
    "sameText True v (js valueAttr)" "34 \<notin> set c"
    "list_all isWhiteSpace w3" "sl = [] \<or> sl = [47]"
    unfolding tagShape_def by blast
  have \<open>accepts True (cat [str opening, Plus Space, str attr, Plus Space, str valueAttr,
      Star (NoneOf (js ''"'')), str ''"'', Star Space, Opt (Lit 47), str ''>''])
      (tg @ w1 @ a @ w2 @ v @ c @ [34] @ w3 @ sl @ [62] @ [])\<close>
    using f
    by (intro accepts_cat_ConsI)
      (simp_all add: accepts_str accepts_Plus_Space accepts_Star_Space accepts_Star_not_quote
        accepts_Opt_slash sameText_gt sameText_quote accepts_cat_Nil del: accepts.simps)
  then show "accepts True (body (tagRx opening attr valueAttr)) u"
    unfolding u tagRx_body by simp
qed

lemma run_unique:
  "list_all P w \<Longrightarrow> list_all P w' \<Longrightarrow> w @ r = w' @ r' \<Longrightarrow> r = [] \<or> \<not> P (hd r) \<Longrightarrow>
     r' = [] \<or> \<not> P (hd r') \<Longrightarrow> w = w' \<and> r = r'"
proof (induction w arbitrary: w')
  case Nil
  then show ?case by (cases w') auto
next
  case (Cons x xs)
  show ?case
  proof (cases w')
    case Nil
    then show ?thesis using Cons.prems by auto
  next
    case (Cons y ys)
    then have "list_all P xs" "list_all P ys" "xs @ r = ys @ r'" "x = y"
      using Cons.prems by auto
    then show ?thesis using Cons.IH [of ys] Cons.prems(4,5) Cons by simp
  qed
qed

lemma sameText_unique:
  "sameText ic a l \<Longrightarrow> sameText ic a' l \<Longrightarrow> a @ r = a' @ r' \<Longrightarrow> a = a' \<and> r = r'"
  by (metis append_eq_append_conv sameText_length)

lemma sameText_startsPlain:
  "sameText True a l \<Longrightarrow> startsPlain l \<Longrightarrow> a \<noteq> [] \<and> \<not> isWhiteSpace (hd a)"
  by (cases l; cases a) (auto simp: startsPlain_def sameText_def)

lemma titleShape_unique:
  assumes "titleShape u" "titleShape u'" "u @ t = u' @ t'"
  shows "u = u'"
proof -
  from assms obtain c c' where u: "u = js ''<title>'' @ c @ js ''</title>''" "60 \<notin> set c"
    and u': "u' = js ''<title>'' @ c' @ js ''</title>''" "60 \<notin> set c'"
    by (auto simp: titleShape_def)
  have "c @ (js ''</title>'' @ t) = c' @ (js ''</title>'' @ t')"
    using assms(3) u(1) u'(1) by simp
  moreover have "hd (js ''</title>'' @ t) = 60" "hd (js ''</title>'' @ t') = 60"
    by (simp_all add: js_def)
  ultimately have "c = c'"
    using run_unique [of "\<lambda>x. x \<noteq> 60" c c' "js ''</title>'' @ t" "js ''</title>'' @ t'"] u(2) u'(2)
    by (simp add: list_all_neq)
  then show ?thesis using u(1) u'(1) by simp
qed

lemma tagShape_unique:
  assumes "tagShape opening attr valueAttr u" "tagShape opening attr valueAttr u'"
    and "u @ t = u' @ t'" and pl: "startsPlain (js attr)" "startsPlain (js valueAttr)"
  shows "u = u'"
proof -
  from assms(1) obtain tg w1 a w2 v c w3 sl where
    u: "u = tg @ w1 @ a @ w2 @ v @ c @ [34] @ w3 @ sl @ [62]" and
    f: "sameText True tg (js opening)" "list_all isWhiteSpace w1"
    "sameText True a (js attr)" "list_all isWhiteSpace w2"
    "sameText True v (js valueAttr)" "34 \<notin> set c"
    "list_all isWhiteSpace w3" "sl = [] \<or> sl = [47]"
    unfolding tagShape_def by blast
  from assms(2) obtain tg' w1' a' w2' v' c' w3' sl' where
    u': "u' = tg' @ w1' @ a' @ w2' @ v' @ c' @ [34] @ w3' @ sl' @ [62]" and
    f': "sameText True tg' (js opening)" "list_all isWhiteSpace w1'"
    "sameText True a' (js attr)" "list_all isWhiteSpace w2'"
    "sameText True v' (js valueAttr)" "34 \<notin> set c'"
    "list_all isWhiteSpace w3'" "sl' = [] \<or> sl' = [47]"
    unfolding tagShape_def by blast
  have e0: "tg @ (w1 @ a @ w2 @ v @ c @ [34] @ w3 @ sl @ [62] @ t) =
            tg' @ (w1' @ a' @ w2' @ v' @ c' @ [34] @ w3' @ sl' @ [62] @ t')"
    using assms(3) u u' by simp
  have 1: "tg = tg'" and e1: "w1 @ (a @ w2 @ v @ c @ [34] @ w3 @ sl @ [62] @ t) =
            w1' @ (a' @ w2' @ v' @ c' @ [34] @ w3' @ sl' @ [62] @ t')"
    using sameText_unique [OF f(1) f'(1) e0] by simp_all
  have na: "\<not> isWhiteSpace (hd (a @ w2 @ v @ c @ [34] @ w3 @ sl @ [62] @ t))"
    "\<not> isWhiteSpace (hd (a' @ w2' @ v' @ c' @ [34] @ w3' @ sl' @ [62] @ t'))"
    using sameText_startsPlain [OF f(3) pl(1)] sameText_startsPlain [OF f'(3) pl(1)] by simp_all
  have 2: "w1 = w1'" and e2: "a @ (w2 @ v @ c @ [34] @ w3 @ sl @ [62] @ t) =
            a' @ (w2' @ v' @ c' @ [34] @ w3' @ sl' @ [62] @ t')"
    using run_unique [OF f(2) f'(2) e1] na by simp_all
  have 3: "a = a'" and e3: "w2 @ (v @ c @ [34] @ w3 @ sl @ [62] @ t) =
            w2' @ (v' @ c' @ [34] @ w3' @ sl' @ [62] @ t')"
    using sameText_unique [OF f(3) f'(3) e2] by simp_all
  have nv: "\<not> isWhiteSpace (hd (v @ c @ [34] @ w3 @ sl @ [62] @ t))"
    "\<not> isWhiteSpace (hd (v' @ c' @ [34] @ w3' @ sl' @ [62] @ t'))"
    using sameText_startsPlain [OF f(5) pl(2)] sameText_startsPlain [OF f'(5) pl(2)] by simp_all
  have 4: "w2 = w2'" and e4: "v @ (c @ [34] @ w3 @ sl @ [62] @ t) =
            v' @ (c' @ [34] @ w3' @ sl' @ [62] @ t')"
    using run_unique [OF f(4) f'(4) e3] nv by simp_all
  have 5: "v = v'" and e5: "c @ ([34] @ w3 @ sl @ [62] @ t) = c' @ ([34] @ w3' @ sl' @ [62] @ t')"
    using sameText_unique [OF f(5) f'(5) e4] by simp_all
  have 6: "c = c'" and e6: "w3 @ (sl @ [62] @ t) = w3' @ (sl' @ [62] @ t')"
    using run_unique [of "\<lambda>x. x \<noteq> 34" c c' "[34] @ w3 @ sl @ [62] @ t" "[34] @ w3' @ sl' @ [62] @ t'"]
      f(6) f'(6) e5 by (simp_all add: list_all_neq)
  have ns: "\<not> isWhiteSpace (hd (sl @ [62] @ t))" "\<not> isWhiteSpace (hd (sl' @ [62] @ t'))"
    using f(8) f'(8) by (auto simp: isWhiteSpace_def)
  have 7: "w3 = w3'" and e7: "sl @ [62] @ t = sl' @ [62] @ t'"
    using run_unique [OF f(7) f'(7) e6] ns by simp_all
  have 8: "sl = sl'" using e7 f(8) f'(8) by auto
  show ?thesis using u u' 1 2 3 4 5 6 7 8 by simp
qed

lemma jsReplace_at_first:
  assumes "\<not> anchored r" "groups (body r) = 0"
    and unamb: "\<And>u u' t t'. accepts (ignoreCase r) (body r) u \<Longrightarrow>
        accepts (ignoreCase r) (body r) u' \<Longrightarrow> u @ t = u' @ t' \<Longrightarrow> u = u'"
    and fo: "firstOccurrence (accepts (ignoreCase r) (body r)) h pre u post"
  shows "jsReplace r t h = pre @ getSubstitution u h (length pre) [] t @ post"
proof -
  from fo have h: "h = pre @ u @ post" and ac: "accepts (ignoreCase r) (body r) u"
    and first: "\<And>pre' u' post'. h = pre' @ u' @ post' \<Longrightarrow> accepts (ignoreCase r) (body r) u'
       \<Longrightarrow> length pre \<le> length pre'"
    by (auto simp: firstOccurrence_def)
  have "occurs r h pre u post" using h ac by (simp add: occurs_def)
  from jsReplace_first_occurrence [OF assms(1,2) this, of t]
  obtain pre1 u1 post1 where o1: "occurs r h pre1 u1 post1"
    and le: "\<forall>pre' u' post'. occurs r h pre' u' post' \<longrightarrow> length pre1 \<le> length pre'"
    and res: "jsReplace r t h = pre1 @ getSubstitution u1 h (length pre1) [] t @ post1"
    by blast
  have h1: "h = pre1 @ u1 @ post1" and ac1: "accepts (ignoreCase r) (body r) u1"
    using o1 by (simp_all add: occurs_def)
  have "length pre1 \<le> length pre" using le \<open>occurs r h pre u post\<close> by blast
  moreover have "length pre \<le> length pre1" using first [OF h1 ac1] .
  ultimately have "length pre1 = length pre" by simp
  then have p: "pre1 = pre" and e: "u1 @ post1 = u @ post"
    using h h1 by (metis append_eq_append_conv)+
  have "u1 = u" using unamb [OF ac1 ac e] .
  then show ?thesis using res p e by simp
qed

lemma jsReplace_none:
  assumes "\<not> anchored r" "noOccurrence (accepts (ignoreCase r) (body r)) h"
  shows "jsReplace r t h = h"
  using assms jsReplace_no_occurrence [of r h t] by (simp add: noOccurrence_def occurs_def)

lemma titleRx_flags: "\<not> anchored titleRx" "ignoreCase titleRx = False"
  by (simp_all add: titleRx_def)

lemma tagRx_flags: "\<not> anchored (tagRx a b c)" "ignoreCase (tagRx a b c) = True"
  by (simp_all add: tagRx_def)

lemma accepts_titleRx_fun: "accepts False (body titleRx) = titleShape"
  by (rule ext) (rule accepts_titleRx)

lemma accepts_tagRx_fun: "accepts True (body (tagRx a b c)) = tagShape a b c"
  by (rule ext) (rule accepts_tagRx)

lemma replace_title_first:
  assumes "firstOccurrence titleShape h pre u post"
  shows "jsReplace titleRx t h = pre @ getSubstitution u h (length pre) [] t @ post"
proof (rule jsReplace_at_first)
  show "firstOccurrence (accepts (ignoreCase titleRx) (body titleRx)) h pre u post"
    using assms by (simp add: titleRx_flags accepts_titleRx_fun)
  show "\<And>u u' t t'. accepts (ignoreCase titleRx) (body titleRx) u \<Longrightarrow>
        accepts (ignoreCase titleRx) (body titleRx) u' \<Longrightarrow> u @ t = u' @ t' \<Longrightarrow> u = u'"
    using titleShape_unique by (simp add: titleRx_flags accepts_titleRx_fun)
qed (simp_all add: titleRx_flags groups_titleRx)

lemma replace_title_none: "noOccurrence titleShape h \<Longrightarrow> jsReplace titleRx t h = h"
  using jsReplace_none [of titleRx h t] by (simp add: titleRx_flags accepts_titleRx_fun)

lemma replace_tag_first:
  assumes "firstOccurrence (tagShape a b c) h pre u post" "startsPlain (js b)" "startsPlain (js c)"
  shows "jsReplace (tagRx a b c) t h = pre @ getSubstitution u h (length pre) [] t @ post"
proof (rule jsReplace_at_first)
  show "firstOccurrence (accepts (ignoreCase (tagRx a b c)) (body (tagRx a b c))) h pre u post"
    using assms(1) by (simp add: tagRx_flags accepts_tagRx_fun)
  show "\<And>u u' t t'. accepts (ignoreCase (tagRx a b c)) (body (tagRx a b c)) u \<Longrightarrow>
        accepts (ignoreCase (tagRx a b c)) (body (tagRx a b c)) u' \<Longrightarrow> u @ t = u' @ t' \<Longrightarrow> u = u'"
    using tagShape_unique [OF _ _ _ assms(2,3)] by (simp add: tagRx_flags accepts_tagRx_fun)
qed (simp_all add: tagRx_flags groups_tagRx)

lemma replace_tag_none: "noOccurrence (tagShape a b c) h \<Longrightarrow> jsReplace (tagRx a b c) t h = h"
  using jsReplace_none [of "tagRx a b c" h t] by (simp add: tagRx_flags accepts_tagRx_fun)

section \<open>Evaluating the matcher on a given document\<close>

lemma map_caps_id: "map (\<lambda>(cb, sb). ([] @ cb, sb)) xs = xs"
  by (induction xs) auto

lemma rxm_Cat_Star:
  "rxm ic (Cat (Star c) r) s = concat (map (rxm ic r) (starTails (clsMatch ic c) s))"
  by (simp add: comp_def map_caps_id)

lemma rxm_Cat_Plus:
  "rxm ic (Cat (Plus c) r) s =
     (case s of [] \<Rightarrow> []
      | x # xs \<Rightarrow> if clsMatch ic c x
          then concat (map (rxm ic r) (starTails (clsMatch ic c) xs)) else [])"
  by (cases s) (simp_all add: comp_def map_caps_id)

lemma rxm_Cat_Opt:
  "rxm ic (Cat (Opt c) r) s =
     (case s of [] \<Rightarrow> rxm ic r []
      | x # xs \<Rightarrow> if clsMatch ic c x then rxm ic r xs @ rxm ic r s else rxm ic r s)"
  by (cases s) (simp_all add: map_caps_id)

lemmas rx_eval =
  regExpExec_def matchAt_def titleRx_def tagRx_def descriptionRx_def ogTitleRx_def
  ogDescriptionRx_def keywordsRx_def twitterTitleRx_def twitterDescriptionRx_def ogImageRx_def
  canonicalRx_def cat_def rxm_Cat_str rxm_Cat_Star rxm_Cat_Plus rxm_Cat_Opt
  js_def canonicalize_def isWhiteSpace_def shopDoc_def

section \<open>Claims on the title, description and keywords steps\<close>

lemma indexOf_first:
  assumes "firstOccurrence (\<lambda>u. u = n) h pre u post"
  shows "indexOf h n = Some (length pre)"
proof -
  from assms have h: "h = pre @ n @ post"
    and first: "\<And>pre' post'. h = pre' @ n @ post' \<Longrightarrow> length pre \<le> length pre'"
    by (auto simp: firstOccurrence_def)
  have "includes_js h n" using h by (auto simp: includes_js_iff sublist_def)
  then obtain i where i: "indexOf h n = Some i"
    using indexOf_None_iff [of h n] by (cases "indexOf h n") auto
  from indexOf_Some [OF i] have le: "i \<le> length h" and p: "prefix n (drop i h)"
    and m: "\<forall>j<i. \<not> prefix n (drop j h)" by blast+
  have "prefix n (drop (length pre) h)" using h by simp
  then have 1: "i \<le> length pre" using m by (meson not_le)
  from p obtain post' where "drop i h = n @ post'" by (auto simp: prefix_def)
  then have "h = take i h @ n @ post'" by (metis append_take_drop_id)
  from first [OF this] have "length pre \<le> i" using le by simp
  then show ?thesis using 1 i by simp
qed

lemma startsPlain_literals:
  \<open>startsPlain (js ''name="description"'')\<close> \<open>startsPlain (js ''content="'')\<close>
  \<open>startsPlain (js ''name="keywords"'')\<close> \<open>startsPlain (js ''property="og:title"'')\<close>
  \<open>startsPlain (js ''property="og:description"'')\<close> \<open>startsPlain (js ''name="twitter:title"'')\<close>
  \<open>startsPlain (js ''name="twitter:description"'')\<close> \<open>startsPlain (js ''property="og:image"'')\<close>
  \<open>startsPlain (js ''rel="canonical"'')\<close> \<open>startsPlain (js ''href="'')\<close>
  by (auto simp: startsPlain_def js_def canonicalize_def isWhiteSpace_def split: if_splits)

text \<open>
  Claim C3, amended. The title step and the description step replace the leftmost text of
  their pattern's shape and nothing else (what stands before and after it is kept), and they
  return a document without such a text as it is. The shapes are narrower than the claim
  says: a title is \<^verbatim>\<open><title>\<close>, a text without \<^verbatim>\<open><\<close>, \<^verbatim>\<open></title>\<close>, in lower case; a
  description tag has \<^verbatim>\<open>name="description"\<close> before \<^verbatim>\<open>content="..."\<close>, with white space,
  letter case and the closing slash free. The replacement is the template with the matched
  text, the text before or the text after put in for a \<^verbatim>\<open>$&\<close>, \<^verbatim>\<open>$`\<close> or \<^verbatim>\<open>$'\<close> of the
  value.
\<close>

theorem always_replace_first_occurrence:
  \<open>(title sd = Str t \<and> noOccurrence titleShape html \<longrightarrow> step1_title sd html = Inr html)
   \<and> (title sd = Str t \<and> firstOccurrence titleShape html pre u post \<longrightarrow>
        step1_title sd html =
          Inr (pre @ getSubstitution u html (length pre) []
                      (js ''<title>'' @ escapeQuot t @ js ''</title>'') @ post))
   \<and> (description sd = Str d
        \<and> noOccurrence (tagShape ''<meta'' ''name="description"'' ''content="'') html \<longrightarrow>
        step2_description sd html = Inr html)
   \<and> (description sd = Str d
        \<and> firstOccurrence (tagShape ''<meta'' ''name="description"'' ''content="'') html pre u post \<longrightarrow>
        step2_description sd html =
          Inr (pre @ getSubstitution u html (length pre) []
                      (js ''<meta name="description" content="'' @ escapeQuot d @ js ''" />'') @ post))\<close>
  by (auto simp: step1_title_def step2_description_def replaceTag_Str descriptionRx_def
      replace_title_none replace_title_first replace_tag_none replace_tag_first
      startsPlain_literals)

lemma firstOccurrence_of_exec:
  assumes "\<not> anchored r" "regExpExec r h = Some m"
  shows "firstOccurrence (accepts (ignoreCase r) (body r)) h
           (take (index m) h) (matched m) (drop (index m + length (matched m)) h)"
proof -
  from regExpExec_Some [OF assms] have
    o: "occurs r h (take (index m) h) (matched m) (drop (index m + length (matched m)) h)"
    and le: "index m \<le> length h"
    and first: "\<And>pre u post. occurs r h pre u post \<Longrightarrow> index m \<le> length pre"
    by blast+
  have len: "length (take (index m) h) = index m" using le by simp
  have "length (take (index m) h) \<le> length pre'"
    if "h = pre' @ u' @ post'" "accepts (ignoreCase r) (body r) u'" for pre' u' post'
    using first [of pre' u' post'] that len by (simp add: occurs_def)
  then show ?thesis
    using o unfolding firstOccurrence_def occurs_def by blast
qed

text \<open>The branches of the keywords step. With a keywords value that is missing or empty the
  step returns its document. With a non-empty value: when \<^verbatim>\<open>name="keywords"\<close> occurs in the
  document, the leftmost text of the keywords pattern's shape is replaced, and the document is
  returned as it is when there is none; otherwise the new tag, after four spaces and before a
  line feed, is put right before the leftmost \<^verbatim>\<open></head>\<close>, and a document without
  \<^verbatim>\<open></head>\<close> is returned as it is.\<close>

lemma step5_keywords_cases:
  \<open>(\<not> truthy (keywords_js sd) \<longrightarrow> step5_keywords sd html = Inr html)
   \<and> (keywords_js sd = Str v \<and> v \<noteq> [] \<and> sublist (js ''name="keywords"'') html
        \<and> firstOccurrence (tagShape ''<meta'' ''name="keywords"'' ''content="'') html pre u post \<longrightarrow>
        step5_keywords sd html =
          Inr (pre @ getSubstitution u html (length pre) []
                      (js ''<meta name="keywords" content="'' @ escapeQuot v @ js ''" />'') @ post))
   \<and> (keywords_js sd = Str v \<and> v \<noteq> [] \<and> sublist (js ''name="keywords"'') html
        \<and> noOccurrence (tagShape ''<meta'' ''name="keywords"'' ''content="'') html \<longrightarrow>
        step5_keywords sd html = Inr html)
   \<and> (keywords_js sd = Str v \<and> v \<noteq> [] \<and> \<not> sublist (js ''name="keywords"'') html
        \<and> firstOccurrence (\<lambda>w. w = js ''</head>'') html pre u post \<longrightarrow>
        step5_keywords sd html =
          Inr (pre @ js ''    <meta name="keywords" content="'' @ escapeQuot v @ js ''" />\<newline>''
               @ js ''</head>'' @ post))
   \<and> (keywords_js sd = Str v \<and> v \<noteq> [] \<and> \<not> sublist (js ''name="keywords"'') html
        \<and> \<not> sublist (js ''</head>'') html \<longrightarrow>
        step5_keywords sd html = Inr html)\<close>
proof -
  have ins: \<open>step5_keywords sd html =
          Inr (pre @ js ''    <meta name="keywords" content="'' @ escapeQuot v @ js ''" />\<newline>''
               @ js ''</head>'' @ post)\<close>
    if \<open>keywords_js sd = Str v\<close> \<open>v \<noteq> []\<close> \<open>\<not> sublist (js ''name="keywords"'') html\<close>
      \<open>firstOccurrence (\<lambda>w. w = js ''</head>'') html pre u post\<close>
  proof -
    have h: \<open>html = pre @ js ''</head>'' @ post\<close> using that(4) by (simp add: firstOccurrence_def)
    have i: \<open>indexOf html (js ''</head>'') = Some (length pre)\<close> using indexOf_first [OF that(4)] .
    show ?thesis using that(1,2,3) i
      by (simp add: step5_keywords_def includes_js_iff sliceTo_def sliceFrom_def h)
  qed
  have none: \<open>step5_keywords sd html = Inr html\<close>
    if \<open>keywords_js sd = Str v\<close> \<open>v \<noteq> []\<close> \<open>\<not> sublist (js ''name="keywords"'') html\<close>
      \<open>\<not> sublist (js ''</head>'') html\<close>
    using that indexOf_None_iff [of html \<open>js ''</head>''\<close>]
    by (simp add: step5_keywords_def includes_js_iff)
  have falsy: \<open>step5_keywords sd html = Inr html\<close> if \<open>\<not> truthy (keywords_js sd)\<close>
    using that by (simp add: step5_keywords_def)
  have rep: \<open>step5_keywords sd html =
          Inr (pre @ getSubstitution u html (length pre) []
                      (js ''<meta name="keywords" content="'' @ escapeQuot v @ js ''" />'') @ post)\<close>
    if \<open>keywords_js sd = Str v\<close> \<open>v \<noteq> []\<close> \<open>sublist (js ''name="keywords"'') html\<close>
      \<open>firstOccurrence (tagShape ''<meta'' ''name="keywords"'' ''content="'') html pre u post\<close>
    using that(1,2,3) replace_tag_first [OF that(4) startsPlain_literals(3,2)]
    by (simp add: step5_keywords_def replaceTag_Str keywordsRx_def includes_js_iff)
  have norep: \<open>step5_keywords sd html = Inr html\<close>
    if \<open>keywords_js sd = Str v\<close> \<open>v \<noteq> []\<close> \<open>sublist (js ''name="keywords"'') html\<close>
      \<open>noOccurrence (tagShape ''<meta'' ''name="keywords"'' ''content="'') html\<close>
    using that(1,2,3) replace_tag_none [OF that(4)]
    by (simp add: step5_keywords_def replaceTag_Str keywordsRx_def includes_js_iff)
  show ?thesis
    using falsy rep norep ins none by blast
qed

text \<open>Claim C3 as stated fails: a description tag with \<^verbatim>\<open>content\<close> before \<^verbatim>\<open>name\<close> is
  not replaced, and neither is a title whose text holds a \<^verbatim>\<open><\<close>.\<close>

theorem always_replace_counterexample:
  \<open>step2_description mugTagSet (js ''<meta content="Shop" name="description">'') =
     Inr (js ''<meta content="Shop" name="description">'')
   \<and> step1_title mugTagSet (js ''<title>a<b</title>'') = Inr (js ''<title>a<b</title>'')\<close>
  by (simp add: step1_title_def step2_description_def replaceTag_def mugTagSet_def jsReplace_def
      rx_eval del: rxm.simps(6))

text \<open>The amended claim at a document with a title and a description.\<close>

theorem always_replace_first_occurrence_witness:
  \<open>step1_title mugTagSet shopDoc =
     Inr (js ''<head><title>Mug | uni10</title><meta name="description" content="Shop"/></head>'')
   \<and> step2_description mugTagSet shopDoc =
     Inr (js ''<head><title>uni10</title><meta name="description" content="A &quot;blue&quot; mug" /></head>'')\<close>
proof -
  have e1: \<open>regExpExec titleRx shopDoc =
      Some \<lparr>index = 6, matched = js ''<title>uni10</title>'', captures = []\<rparr>\<close>
    by (simp add: rx_eval del: rxm.simps(6))
  have f1: \<open>firstOccurrence titleShape shopDoc (take 6 shopDoc) (js ''<title>uni10</title>'')
      (drop (6 + length (js ''<title>uni10</title>'')) shopDoc)\<close>
    using firstOccurrence_of_exec [OF titleRx_flags(1) e1]
    by (simp add: titleRx_flags accepts_titleRx_fun)
  have t1: \<open>title mugTagSet = Str (js ''Mug | uni10'')\<close>
    by (simp add: mugTagSet_def)
  have r1: \<open>take 6 shopDoc @ getSubstitution (js ''<title>uni10</title>'') shopDoc (length (take 6 shopDoc)) []
        (js ''<title>'' @ escapeQuot (js ''Mug | uni10'') @ js ''</title>'')
        @ drop (6 + length (js ''<title>uni10</title>'')) shopDoc =
      js ''<head><title>Mug | uni10</title><meta name="description" content="Shop"/></head>''\<close>
    by code_simp
  have e2: \<open>regExpExec descriptionRx shopDoc =
      Some \<lparr>index = 26, matched = js ''<meta name="description" content="Shop"/>'', captures = []\<rparr>\<close>
    by (simp add: rx_eval del: rxm.simps(6))
  have f2: \<open>firstOccurrence (tagShape ''<meta'' ''name="description"'' ''content="'') shopDoc
      (take 26 shopDoc) (js ''<meta name="description" content="Shop"/>'')
      (drop (26 + length (js ''<meta name="description" content="Shop"/>'')) shopDoc)\<close>
    using firstOccurrence_of_exec [OF _ e2]
    by (simp add: descriptionRx_def tagRx_flags accepts_tagRx_fun)
  have t2: \<open>description mugTagSet = Str (js ''A "blue" mug'')\<close>
    by (simp add: mugTagSet_def)
  have r2: \<open>take 26 shopDoc @ getSubstitution (js ''<meta name="description" content="Shop"/>'') shopDoc
        (length (take 26 shopDoc)) []
        (js ''<meta name="description" content="'' @ escapeQuot (js ''A "blue" mug'') @ js ''" />'')
        @ drop (26 + length (js ''<meta name="description" content="Shop"/>'')) shopDoc =
      js ''<head><title>uni10</title><meta name="description" content="A &quot;blue&quot; mug" /></head>''\<close>
    by code_simp
  have s1: \<open>step1_title mugTagSet shopDoc =
     Inr (take 6 shopDoc @ getSubstitution (js ''<title>uni10</title>'') shopDoc (length (take 6 shopDoc)) []
        (js ''<title>'' @ escapeQuot (js ''Mug | uni10'') @ js ''</title>'')
        @ drop (6 + length (js ''<title>uni10</title>'')) shopDoc)\<close>
    using always_replace_first_occurrence [of mugTagSet \<open>js ''Mug | uni10''\<close> shopDoc \<open>take 6 shopDoc\<close>
        \<open>js ''<title>uni10</title>''\<close> \<open>drop (6 + length (js ''<title>uni10</title>'')) shopDoc\<close>] f1 t1
    by blast
  have s2: \<open>step2_description mugTagSet shopDoc =
     Inr (take 26 shopDoc @ getSubstitution (js ''<meta name="description" content="Shop"/>'') shopDoc
        (length (take 26 shopDoc)) []
        (js ''<meta name="description" content="'' @ escapeQuot (js ''A "blue" mug'') @ js ''" />'')
        @ drop (26 + length (js ''<meta name="description" content="Shop"/>'')) shopDoc)\<close>
    using always_replace_first_occurrence [of mugTagSet _ shopDoc \<open>take 26 shopDoc\<close>
        \<open>js ''<meta name="description" content="Shop"/>''\<close>
        \<open>drop (26 + length (js ''<meta name="description" content="Shop"/>'')) shopDoc\<close>
        \<open>js ''A "blue" mug''\<close>] f2 t2
    by blast
  show ?thesis unfolding s1 s2 r1 r2 by simp
qed

lemma firstOccurrence_of_indexOf:
  assumes "indexOf h n = Some i"
  shows "firstOccurrence (\<lambda>w. w = n) h (take i h) n (drop (i + length n) h)"
proof -
  from indexOf_Some [OF assms] have le: "i \<le> length h" and p: "prefix n (drop i h)"
    and m: "\<And>j. j < i \<Longrightarrow> \<not> prefix n (drop j h)" by blast+
  from p obtain post where d: "drop i h = n @ post" by (auto simp: prefix_def)
  have h: "h = take i h @ n @ post" using d by (metis append_take_drop_id)
  have post: "drop (i + length n) h = post"
    using d by (metis add.commute append_eq_conv_conj drop_drop)
  have "length (take i h) \<le> length pre'" if "h = pre' @ n @ post'" for pre' post'
  proof (rule ccontr)
    assume "\<not> length (take i h) \<le> length pre'"
    then have "length pre' < i" using le by simp
    moreover have "prefix n (drop (length pre') h)" using that by simp
    ultimately show False using m by blast
  qed
  then show ?thesis using h post unfolding firstOccurrence_def by auto
qed

section \<open>The injector as a chain of its steps\<close>

lemma injectMetaTags_found:
  assumes "extractProductSlug pathname = Some slug" "found env slug product"
    "generateProductSeoTags env product baseUrl = Inr sd" "createMetaTagsHtml env sd = Inr metaTags"
  shows "fst (injectMetaTags env html pathname baseUrl) = fst (runSteps (injectorSteps sd) html)"
proof -
  have ne: "slug \<noteq> []" using extractProductSlug_nonempty [OF assms(1)] .
  have p: "fst (injectProduct env html baseUrl product evs) = fst (runSteps (injectorSteps sd) html)"
    for evs
    using assms(3,4) by (simp add: injectProduct_def split: prod.splits option.splits)
  show ?thesis
    using assms(1,2) ne p by (auto simp: injectMetaTags_def found_def)
qed

lemma runSteps_nine:
  assumes "step1_title sd html = Inr h1" "step2_description sd h1 = Inr h2"
    "step3_ogTitle sd h2 = Inr h3" "step4_ogDescription sd h3 = Inr h4"
    "step5_keywords sd h4 = Inr h5" "step6_twitterTitle sd h5 = Inr h6"
    "step7_twitterDescription sd h6 = Inr h7" "step8_ogImage sd h7 = Inr h8"
    "step9_canonical sd h8 = Inr h9"
  shows "runSteps (injectorSteps sd) html = (h9, None)"
  using assms by (simp add: injectorSteps_def)

lemma replacedFirst_tag:
  assumes "replacedFirst (tagShape a b c) t h h'" "startsPlain (js b)" "startsPlain (js c)"
  shows "jsReplace (tagRx a b c) t h = h'"
proof -
  from assms(1) consider "noOccurrence (tagShape a b c) h" "h' = h"
    | pre u post where "firstOccurrence (tagShape a b c) h pre u post"
        "h' = pre @ getSubstitution u h (length pre) [] t @ post"
    unfolding replacedFirst_def by blast
  then show ?thesis
  proof cases
    case 1 then show ?thesis using replace_tag_none by simp
  next
    case 2 then show ?thesis using replace_tag_first [OF 2(1) assms(2,3)] by simp
  qed
qed


lemma keywordsPolicy_step:
  assumes "keywordsPolicy (keywords_js sd) h h'"
  shows "step5_keywords sd h = Inr h'"
proof (cases "keywords_js sd")
  case Undefined
  then show ?thesis using assms by (simp add: keywordsPolicy_def step5_keywords_def)
next
  case (Str v)
  show ?thesis
  proof (cases "v = []")
    case True
    then show ?thesis using assms Str by (simp add: keywordsPolicy_def step5_keywords_def)
  next
    case ne: False
    show ?thesis
    proof (cases \<open>sublist (js ''name="keywords"'') h\<close>)
      case True
      then have \<open>replacedFirst (tagShape ''<meta'' ''name="keywords"'' ''content="'')
                 (js ''<meta name="keywords" content="'' @ escapeQuot v @ js ''" />'') h h'\<close>
        using assms Str ne by (simp add: keywordsPolicy_def)
      from replacedFirst_tag [OF this startsPlain_literals(3,2)] True Str ne show ?thesis
        by (simp add: step5_keywords_def includes_js_iff replaceTag_Str keywordsRx_def)
    next
      case nk: False
      show ?thesis
      proof (cases \<open>sublist (js ''</head>'') h\<close>)
        case True
        then obtain pre post where
          f: \<open>firstOccurrence (\<lambda>w. w = js ''</head>'') h pre (js ''</head>'') post\<close>
          and h': \<open>h' = pre @ js ''    <meta name="keywords" content="'' @ escapeQuot v
                            @ js ''" />\<newline>'' @ js ''</head>'' @ post\<close>
          using assms Str ne nk by (auto simp: keywordsPolicy_def)
        show ?thesis
          using step5_keywords_cases [of sd h v pre \<open>js ''</head>''\<close> post] Str ne nk f h'
          by blast
      next
        case False
        then have "h' = h" using assms Str ne nk by (simp add: keywordsPolicy_def)
        then show ?thesis
          using step5_keywords_cases [of sd h v] Str ne nk False by blast
      qed
    qed
  qed
qed


text \<open>
  Claim C2, amended. For a product path, a found product and its tag-set, the injector
  returns the document that the nine steps make in their order, where the keywords step works
  on the document it receives from the og:description step. With a non-empty keywords value:
  when \<^verbatim>\<open>name="keywords"\<close> occurs in that document, the leftmost tag of the keywords pattern's
  shape (the name before the content) is replaced, and nothing is changed when the document
  has no tag of that shape; when \<^verbatim>\<open>name="keywords"\<close> does not occur, the new tag is put, after
  four spaces and before a line feed, right before the leftmost \<^verbatim>\<open></head>\<close>, and nothing is
  changed when there is no \<^verbatim>\<open></head>\<close>. With an empty or missing value the step changes
  nothing.
\<close>

theorem keywords_replaced_or_inserted_by_injector:
  assumes \<open>extractProductSlug pathname = Some slug\<close> and \<open>found env slug product\<close>
    and \<open>generateProductSeoTags env product baseUrl = Inr sd\<close>
    and \<open>createMetaTagsHtml env sd = Inr metaTags\<close>
    and \<open>step1_title sd html = Inr h1\<close> and \<open>step2_description sd h1 = Inr h2\<close>
    and \<open>step3_ogTitle sd h2 = Inr h3\<close> and \<open>step4_ogDescription sd h3 = Inr h4\<close>
    and \<open>keywordsPolicy (keywords_js sd) h4 h5\<close>
    and \<open>step6_twitterTitle sd h5 = Inr h6\<close> and \<open>step7_twitterDescription sd h6 = Inr h7\<close>
    and \<open>step8_ogImage sd h7 = Inr h8\<close> and \<open>step9_canonical sd h8 = Inr h9\<close>
  shows \<open>fst (injectMetaTags env html pathname baseUrl) = h9\<close>
  using injectMetaTags_found [OF assms(1-4)]
    runSteps_nine [OF assms(5-8) keywordsPolicy_step [OF assms(9)] assms(10-13)]
  by simp

section \<open>The steps at a match the matcher has computed\<close>

lemma replaceTag_at:
  assumes "field = Str d"
    and "regExpExec r h = Some \<lparr>index = i, matched = u, captures = cs\<rparr>"
    and "take i h @ getSubstitution u h i cs (js opening @ escapeQuot d @ js closing)
           @ drop (i + length u) h = h'"
  shows "replaceTag r opening field closing h = Inr h'"
  using assms by (simp add: replaceTag_def jsReplace_def)

lemma replaceTag_none:
  assumes "field = Str d" and "regExpExec r h = None"
  shows "replaceTag r opening field closing h = Inr h"
  using assms by (simp add: replaceTag_def jsReplace_def)

lemma guarded_absent:
  "\<not> includes_js h n \<Longrightarrow> (if includes_js h n then x else Inr h) = Inr h"
  by simp


lemma guarded_none:
  assumes "includes_js h n" "field = Str d" and "regExpExec r h = None"
  shows "(if includes_js h n then replaceTag r opening field closing h else Inr h) = Inr h"
  using assms(1) replaceTag_none [OF assms(2,3)] by simp

lemma step5_falsy: "\<not> truthy (keywords_js sd) \<Longrightarrow> step5_keywords sd h = Inr h"
  by (simp add: step5_keywords_def)

lemma step5_at:
  assumes \<open>keywords_js sd = Str v\<close> \<open>v \<noteq> []\<close> \<open>includes_js h (js ''name="keywords"'')\<close>
    and \<open>regExpExec (tagRx ''<meta'' ''name="keywords"'' ''content="'') h =
           Some \<lparr>index = i, matched = u, captures = cs\<rparr>\<close>
    and \<open>take i h @ getSubstitution u h i cs
             (js ''<meta name="keywords" content="'' @ escapeQuot v @ js ''" />'')
           @ drop (i + length u) h = h'\<close>
  shows \<open>step5_keywords sd h = Inr h'\<close>
  using assms(1,2,3) replaceTag_at [OF assms(1,4,5)]
  by (simp add: step5_keywords_def keywordsRx_def)

lemma step5_none:
  assumes \<open>keywords_js sd = Str v\<close> \<open>v \<noteq> []\<close> \<open>includes_js h (js ''name="keywords"'')\<close>
    and \<open>regExpExec (tagRx ''<meta'' ''name="keywords"'' ''content="'') h = None\<close>
  shows \<open>step5_keywords sd h = Inr h\<close>
  using assms(1,2,3) replaceTag_none [OF assms(1,4)]
  by (simp add: step5_keywords_def keywordsRx_def)

lemma step5_insert:
  assumes \<open>keywords_js sd = Str v\<close> \<open>v \<noteq> []\<close> \<open>\<not> includes_js h (js ''name="keywords"'')\<close>
    and \<open>indexOf h (js ''</head>'') = Some i\<close>
    and \<open>take i h @ js ''    <meta name="keywords" content="'' @ escapeQuot v @ js ''" />\<newline>''
           @ drop i h = h'\<close>
  shows \<open>step5_keywords sd h = Inr h'\<close>
  using assms by (simp add: step5_keywords_def sliceTo_def sliceFrom_def)


section \<open>The policies at a match the matcher has computed\<close>

lemma replacedFirst_at:
  assumes "regExpExec (tagRx a b c) h = Some \<lparr>index = i, matched = u, captures = []\<rparr>"
    and "take i h @ getSubstitution u h i [] t @ drop (i + length u) h = h'"
  shows "replacedFirst (tagShape a b c) t h h'"
proof -
  have f: "firstOccurrence (tagShape a b c) h (take i h) u (drop (i + length u) h)"
    using firstOccurrence_of_exec [OF tagRx_flags(1) assms(1)]
    by (simp add: tagRx_flags accepts_tagRx_fun)
  have "i \<le> length h" using regExpExec_Some [OF tagRx_flags(1) assms(1)] by simp
  then have len: "length (take i h) = i" by simp
  have "h' = take i h @ getSubstitution u h (length (take i h)) [] t @ drop (i + length u) h"
    unfolding len using assms(2) by simp
  then show ?thesis unfolding replacedFirst_def using f by blast
qed

lemma replacedFirst_none:
  assumes "regExpExec (tagRx a b c) h = None"
  shows "replacedFirst (tagShape a b c) t h h"
proof -
  have "\<not> (\<exists>pre u post. occurs (tagRx a b c) h pre u post)"
    using regExpExec_None [OF tagRx_flags(1), of a b c h] assms by simp
  then have "noOccurrence (tagShape a b c) h"
    by (simp add: noOccurrence_def occurs_def tagRx_flags accepts_tagRx_fun)
  then show ?thesis by (simp add: replacedFirst_def)
qed



lemma conditionalReplace_none:
  assumes "includes_js h (js b)" and "regExpExec (tagRx a b c) h = None"
  shows "conditionalReplace a b c t h h"
  using assms(1) replacedFirst_none [OF assms(2)]
  by (simp add: conditionalReplace_def includes_js_iff)

lemma keywordsPolicy_at:
  assumes \<open>v \<noteq> []\<close> \<open>includes_js h (js ''name="keywords"'')\<close>
    and \<open>regExpExec (tagRx ''<meta'' ''name="keywords"'' ''content="'') h =
           Some \<lparr>index = i, matched = u, captures = []\<rparr>\<close>
    and \<open>take i h @ getSubstitution u h i []
             (js ''<meta name="keywords" content="'' @ escapeQuot v @ js ''" />'')
           @ drop (i + length u) h = h'\<close>
  shows \<open>keywordsPolicy (Str v) h h'\<close>
  using assms(1,2) replacedFirst_at [OF assms(3,4)]
  by (simp add: keywordsPolicy_def includes_js_iff)

lemma keywordsPolicy_insert:
  assumes \<open>v \<noteq> []\<close> \<open>\<not> includes_js h (js ''name="keywords"'')\<close>
    and \<open>indexOf h (js ''</head>'') = Some i\<close>
    and \<open>take i h @ js ''    <meta name="keywords" content="'' @ escapeQuot v @ js ''" />\<newline>''
           @ drop i h = h'\<close>
  shows \<open>keywordsPolicy (Str v) h h'\<close>
proof -
  have f: \<open>firstOccurrence (\<lambda>w. w = js ''</head>'') h (take i h) (js ''</head>'')
             (drop (i + length (js ''</head>'')) h)\<close>
    using firstOccurrence_of_indexOf [OF assms(3)] .
  then have h: \<open>h = take i h @ js ''</head>'' @ drop (i + length (js ''</head>'')) h\<close>
    by (simp add: firstOccurrence_def)
  have d: \<open>drop i h = js ''</head>'' @ drop (i + length (js ''</head>'')) h\<close>
    using h by (metis append_eq_conv_conj append_take_drop_id)
  have s: \<open>sublist (js ''</head>'') h\<close>
    using indexOf_None_iff [of h \<open>js ''</head>''\<close>] assms(3) by (simp add: includes_js_iff)
  have \<open>h' = take i h @ js ''    <meta name="keywords" content="'' @ escapeQuot v
                 @ js ''" />\<newline>'' @ js ''</head>'' @ drop (i + length (js ''</head>'')) h\<close>
    using assms(4) d by simp
  then show ?thesis
    using assms(1,2) s f unfolding keywordsPolicy_def includes_js_iff by auto
qed

section \<open>The injector at given documents\<close>

lemma mugShop_facts:
  \<open>extractProductSlug (js ''/products/mug'') = Some (js ''mug'')\<close>
  \<open>found (mugShop sd) (js ''mug'') ()\<close>
  \<open>generateProductSeoTags (mugShop sd) () shopUrl = Inr sd\<close>
  \<open>createMetaTagsHtml (mugShop sd) sd = Inr []\<close>
proof -
  show \<open>extractProductSlug (js ''/products/mug'') = Some (js ''mug'')\<close> by code_simp
qed (simp_all add: found_def mugShop_def)

lemma mugShop_run:
  assumes "step1_title sd html = Inr h1" "step2_description sd h1 = Inr h2"
    "step3_ogTitle sd h2 = Inr h3" "step4_ogDescription sd h3 = Inr h4"
    "step5_keywords sd h4 = Inr h5" "step6_twitterTitle sd h5 = Inr h6"
    "step7_twitterDescription sd h6 = Inr h7" "step8_ogImage sd h7 = Inr h8"
    "step9_canonical sd h8 = Inr h9"
  shows \<open>fst (injectMetaTags (mugShop sd) html (js ''/products/mug'') shopUrl) = h9\<close>
  using injectMetaTags_found [OF mugShop_facts, of sd html] runSteps_nine [OF assms] by simp



text \<open>Claim C2 as stated fails. The document has a keywords tag and holds the text
  \<^verbatim>\<open>name="keywords"\<close>, the keywords value is not empty, and the injector neither replaces
  the tag nor inserts one: the tag has its content before its name, which the pattern does not
  describe.\<close>

theorem keywords_counterexample:
  \<open>sublist (js ''name="keywords"'') contentFirstDoc
   \<and> truthy (keywords_js mugTagSet)
   \<and> fst (injectMetaTags (mugShop mugTagSet) contentFirstDoc (js ''/products/mug'') shopUrl) = contentFirstDoc\<close>
proof -
  have n: \<open>includes_js contentFirstDoc (js ''name="keywords"'')\<close> by code_simp
  have t: \<open>truthy (keywords_js mugTagSet)\<close> by (simp add: mugTagSet_def js_def)
  let ?h0 = \<open>js ''<head><meta content="old" name="keywords"></head>''\<close>
  have f_title: \<open>title mugTagSet = Str (js ''Mug | uni10'')\<close>
    by (simp add: mugTagSet_def)
  have e1: \<open>regExpExec titleRx ?h0 = None\<close>
    by (simp add: rx_eval del: rxm.simps(6))
  have s1: \<open>step1_title mugTagSet ?h0 = Inr ?h0\<close>
    unfolding step1_title_def
    by (rule replaceTag_none [OF f_title e1])
  have f_description: \<open>description mugTagSet = Str (js ''A "blue" mug'')\<close>
    by (simp add: mugTagSet_def)
  have e2: \<open>regExpExec (tagRx ''<meta'' ''name="description"'' ''content="'') ?h0 = None\<close>
    by (simp add: rx_eval del: rxm.simps(6))
  have s2: \<open>step2_description mugTagSet ?h0 = Inr ?h0\<close>
    unfolding step2_description_def descriptionRx_def
    by (rule replaceTag_none [OF f_description e2])
  have g3: \<open>\<not> includes_js ?h0 (js ''property="og:title"'')\<close> by code_simp
  have s3: \<open>step3_ogTitle mugTagSet ?h0 = Inr ?h0\<close>
    unfolding step3_ogTitle_def ogTitleRx_def
    by (rule guarded_absent [OF g3])
  have g4: \<open>\<not> includes_js ?h0 (js ''property="og:description"'')\<close> by code_simp
  have s4: \<open>step4_ogDescription mugTagSet ?h0 = Inr ?h0\<close>
    unfolding step4_ogDescription_def ogDescriptionRx_def
    by (rule guarded_absent [OF g4])
  have f_keywords_js: \<open>keywords_js mugTagSet = Str (js ''mug, "blue"'')\<close>
    by (simp add: mugTagSet_def)
  have g5: \<open>includes_js ?h0 (js ''name="keywords"'')\<close> by code_simp
  have e5: \<open>regExpExec (tagRx ''<meta'' ''name="keywords"'' ''content="'') ?h0 = None\<close>
    by (simp add: rx_eval del: rxm.simps(6))
  have ne: \<open>(js ''mug, "blue"'') \<noteq> []\<close> by (simp add: js_def)
  have s5: \<open>step5_keywords mugTagSet ?h0 = Inr ?h0\<close>
    by (rule step5_none [OF f_keywords_js ne g5 e5])
  have g6: \<open>\<not> includes_js ?h0 (js ''name="twitter:title"'')\<close> by code_simp
  have s6: \<open>step6_twitterTitle mugTagSet ?h0 = Inr ?h0\<close>
    unfolding step6_twitterTitle_def twitterTitleRx_def
    by (rule guarded_absent [OF g6])
  have g7: \<open>\<not> includes_js ?h0 (js ''name="twitter:description"'')\<close> by code_simp
  have s7: \<open>step7_twitterDescription mugTagSet ?h0 = Inr ?h0\<close>
    unfolding step7_twitterDescription_def twitterDescriptionRx_def
    by (rule guarded_absent [OF g7])
  have g8: \<open>\<not> includes_js ?h0 (js ''property="og:image"'')\<close> by code_simp
  have s8: \<open>step8_ogImage mugTagSet ?h0 = Inr ?h0\<close>
    unfolding step8_ogImage_def ogImageRx_def
    by (rule guarded_absent [OF g8])
  have g9: \<open>\<not> includes_js ?h0 (js ''rel="canonical"'')\<close> by code_simp
  have s9: \<open>step9_canonical mugTagSet ?h0 = Inr ?h0\<close>
    unfolding step9_canonical_def canonicalRx_def
    by (rule guarded_absent [OF g9])
  show ?thesis
    using n t mugShop_run [OF s1 s2 s3 s4 s5 s6 s7 s8 s9]
    unfolding includes_js_iff contentFirstDoc_def by simp
qed

text \<open>The amended claim at a document with a keywords tag of the pattern's shape.\<close>

theorem keywords_replaced_or_inserted_by_injector_witness:
  \<open>fst (injectMetaTags (mugShop mugTagSet) keywordsDoc (js ''/products/mug'') shopUrl) =
     (js ''<head><meta name="keywords" content="mug, &quot;blue&quot;" /></head>'')\<close>
proof -
  let ?h0 = \<open>js ''<head><meta  name="keywords" content="old"></head>''\<close>
  let ?h5 = \<open>js ''<head><meta name="keywords" content="mug, &quot;blue&quot;" /></head>''\<close>
  have f_title: \<open>title mugTagSet = Str (js ''Mug | uni10'')\<close>
    by (simp add: mugTagSet_def)
  have e1: \<open>regExpExec titleRx ?h0 = None\<close>
    by (simp add: rx_eval del: rxm.simps(6))
  have s1: \<open>step1_title mugTagSet ?h0 = Inr ?h0\<close>
    unfolding step1_title_def
    by (rule replaceTag_none [OF f_title e1])
  have f_description: \<open>description mugTagSet = Str (js ''A "blue" mug'')\<close>
    by (simp add: mugTagSet_def)
  have e2: \<open>regExpExec (tagRx ''<meta'' ''name="description"'' ''content="'') ?h0 = None\<close>
    by (simp add: rx_eval del: rxm.simps(6))
  have s2: \<open>step2_description mugTagSet ?h0 = Inr ?h0\<close>
    unfolding step2_description_def descriptionRx_def
    by (rule replaceTag_none [OF f_description e2])
  have g3: \<open>\<not> includes_js ?h0 (js ''property="og:title"'')\<close> by code_simp
  have s3: \<open>step3_ogTitle mugTagSet ?h0 = Inr ?h0\<close>
    unfolding step3_ogTitle_def ogTitleRx_def
    by (rule guarded_absent [OF g3])
  have g4: \<open>\<not> includes_js ?h0 (js ''property="og:description"'')\<close> by code_simp
  have s4: \<open>step4_ogDescription mugTagSet ?h0 = Inr ?h0\<close>
    unfolding step4_ogDescription_def ogDescriptionRx_def
    by (rule guarded_absent [OF g4])
  have f_keywords_js: \<open>keywords_js mugTagSet = Str (js ''mug, "blue"'')\<close>
    by (simp add: mugTagSet_def)
  have g5: \<open>includes_js ?h0 (js ''name="keywords"'')\<close> by code_simp
  have e5: \<open>regExpExec (tagRx ''<meta'' ''name="keywords"'' ''content="'') ?h0 =
      Some \<lparr>index = 6, matched = (js ''<meta  name="keywords" content="old">''), captures = []\<rparr>\<close>
    by (simp add: rx_eval del: rxm.simps(6))
  have r5: \<open>take 6 ?h0 @ getSubstitution (js ''<meta  name="keywords" content="old">'') ?h0 6 []
        ((js ''<meta name="keywords" content="'') @ escapeQuot (js ''mug, "blue"'') @ (js ''" />''))
        @ drop (6 + length (js ''<meta  name="keywords" content="old">'')) ?h0 =
      ?h5\<close>
    by code_simp
  have ne: \<open>(js ''mug, "blue"'') \<noteq> []\<close> by (simp add: js_def)
  have s5: \<open>keywordsPolicy (keywords_js mugTagSet) ?h0 ?h5\<close>
    unfolding f_keywords_js by (rule keywordsPolicy_at [OF ne g5 e5 r5])
  have g6: \<open>\<not> includes_js ?h5 (js ''name="twitter:title"'')\<close> by code_simp
  have s6: \<open>step6_twitterTitle mugTagSet ?h5 = Inr ?h5\<close>
    unfolding step6_twitterTitle_def twitterTitleRx_def
    by (rule guarded_absent [OF g6])
  have g7: \<open>\<not> includes_js ?h5 (js ''name="twitter:description"'')\<close> by code_simp
  have s7: \<open>step7_twitterDescription mugTagSet ?h5 = Inr ?h5\<close>
    unfolding step7_twitterDescription_def twitterDescriptionRx_def
    by (rule guarded_absent [OF g7])
  have g8: \<open>\<not> includes_js ?h5 (js ''property="og:image"'')\<close> by code_simp
  have s8: \<open>step8_ogImage mugTagSet ?h5 = Inr ?h5\<close>
    unfolding step8_ogImage_def ogImageRx_def
    by (rule guarded_absent [OF g8])
  have g9: \<open>\<not> includes_js ?h5 (js ''rel="canonical"'')\<close> by code_simp
  have s9: \<open>step9_canonical mugTagSet ?h5 = Inr ?h5\<close>
    unfolding step9_canonical_def canonicalRx_def
    by (rule guarded_absent [OF g9])
  show ?thesis
    unfolding keywordsDoc_def
    by (rule keywords_replaced_or_inserted_by_injector [OF mugShop_facts s1 s2 s3 s4 s5 s6 s7 s8 s9])
qed

text \<open>
  Claim C6 says that no double quote of the product data reaches an attribute unescaped. The
  description \<^verbatim>\<open>Prices in "$"\<close> is escaped to \<^verbatim>\<open>Prices in &quot;$&quot;\<close>, and that text is
  the replacement template of \<^verbatim>\<open>replace\<close>: its \<^verbatim>\<open>$&\<close> stands for the matched tag. The
  content written has the old tag, with its own double quotes, where the product's second
  double quote was. The keywords, inserted by concatenation, have \<^verbatim>\<open>&quot;\<close> for each double
  quote.
\<close>

theorem escaped_value_expanded_as_template:
  \<open>fst (injectMetaTags (mugShop pricesTagSet) shopDoc (js ''/products/mug'') shopUrl) =
     (js ''<head><title>Mug | uni10</title><meta name="description" content="Prices in &quot;<meta name="description" content="Shop"/>quot;" />    <meta name="keywords" content="mug, &quot;blue&quot;" />\<newline></head>'')\<close>
proof -
  let ?h0 = \<open>js ''<head><title>uni10</title><meta name="description" content="Shop"/></head>''\<close>
  let ?h1 = \<open>js ''<head><title>Mug | uni10</title><meta name="description" content="Shop"/></head>''\<close>
  let ?h2 = \<open>js ''<head><title>Mug | uni10</title><meta name="description" content="Prices in &quot;<meta name="description" content="Shop"/>quot;" /></head>''\<close>
  let ?h5 = \<open>js ''<head><title>Mug | uni10</title><meta name="description" content="Prices in &quot;<meta name="description" content="Shop"/>quot;" />    <meta name="keywords" content="mug, &quot;blue&quot;" />\<newline></head>''\<close>
  have f_title: \<open>title pricesTagSet = Str (js ''Mug | uni10'')\<close>
    by (simp add: pricesTagSet_def mugTagSet_def)
  have e1: \<open>regExpExec titleRx ?h0 =
      Some \<lparr>index = 6, matched = (js ''<title>uni10</title>''), captures = []\<rparr>\<close>
    by (simp add: rx_eval del: rxm.simps(6))
  have r1: \<open>take 6 ?h0 @ getSubstitution (js ''<title>uni10</title>'') ?h0 6 []
        ((js ''<title>'') @ escapeQuot (js ''Mug | uni10'') @ (js ''</title>''))
        @ drop (6 + length (js ''<title>uni10</title>'')) ?h0 =
      ?h1\<close>
    by code_simp
  have s1: \<open>step1_title pricesTagSet ?h0 = Inr ?h1\<close>
    unfolding step1_title_def
    by (rule replaceTag_at [OF f_title e1 r1])
  have f_description: \<open>description pricesTagSet = Str (js ''Prices in "$"'')\<close>
    by (simp add: pricesTagSet_def mugTagSet_def)
  have e2: \<open>regExpExec (tagRx ''<meta'' ''name="description"'' ''content="'') ?h1 =
      Some \<lparr>index = 32, matched = (js ''<meta name="description" content="Shop"/>''), captures = []\<rparr>\<close>
    by (simp add: rx_eval del: rxm.simps(6))
  have r2: \<open>take 32 ?h1 @ getSubstitution (js ''<meta name="description" content="Shop"/>'') ?h1 32 []
        ((js ''<meta name="description" content="'') @ escapeQuot (js ''Prices in "$"'') @ (js ''" />''))
        @ drop (32 + length (js ''<meta name="description" content="Shop"/>'')) ?h1 =
      ?h2\<close>
    by code_simp
  have s2: \<open>step2_description pricesTagSet ?h1 = Inr ?h2\<close>
    unfolding step2_description_def descriptionRx_def
    by (rule replaceTag_at [OF f_description e2 r2])
  have g3: \<open>\<not> includes_js ?h2 (js ''property="og:title"'')\<close> by code_simp
  have s3: \<open>step3_ogTitle pricesTagSet ?h2 = Inr ?h2\<close>
    unfolding step3_ogTitle_def ogTitleRx_def
    by (rule guarded_absent [OF g3])
  have g4: \<open>\<not> includes_js ?h2 (js ''property="og:description"'')\<close> by code_simp
  have s4: \<open>step4_ogDescription pricesTagSet ?h2 = Inr ?h2\<close>
    unfolding step4_ogDescription_def ogDescriptionRx_def
    by (rule guarded_absent [OF g4])
  have f_keywords_js: \<open>keywords_js pricesTagSet = Str (js ''mug, "blue"'')\<close>
    by (simp add: pricesTagSet_def mugTagSet_def)
  have g5: \<open>\<not> includes_js ?h2 (js ''name="keywords"'')\<close> by code_simp
  have e5: \<open>indexOf ?h2 (js ''</head>'') = Some 132\<close> by code_simp
  have r5: \<open>take 132 ?h2 @ js ''    <meta name="keywords" content="'' @ escapeQuot (js ''mug, "blue"'')
        @ js ''" />\<newline>'' @ drop 132 ?h2 =
      ?h5\<close>
    by code_simp
  have ne: \<open>(js ''mug, "blue"'') \<noteq> []\<close> by (simp add: js_def)
  have s5: \<open>step5_keywords pricesTagSet ?h2 = Inr ?h5\<close>
    by (rule step5_insert [OF f_keywords_js ne g5 e5 r5])
  have g6: \<open>\<not> includes_js ?h5 (js ''name="twitter:title"'')\<close> by code_simp
  have s6: \<open>step6_twitterTitle pricesTagSet ?h5 = Inr ?h5\<close>
    unfolding step6_twitterTitle_def twitterTitleRx_def
    by (rule guarded_absent [OF g6])
  have g7: \<open>\<not> includes_js ?h5 (js ''name="twitter:description"'')\<close> by code_simp
  have s7: \<open>step7_twitterDescription pricesTagSet ?h5 = Inr ?h5\<close>
    unfolding step7_twitterDescription_def twitterDescriptionRx_def
    by (rule guarded_absent [OF g7])
  have g8: \<open>\<not> includes_js ?h5 (js ''property="og:image"'')\<close> by code_simp
  have s8: \<open>step8_ogImage pricesTagSet ?h5 = Inr ?h5\<close>
    unfolding step8_ogImage_def ogImageRx_def
    by (rule guarded_absent [OF g8])
  have g9: \<open>\<not> includes_js ?h5 (js ''rel="canonical"'')\<close> by code_simp
  have s9: \<open>step9_canonical pricesTagSet ?h5 = Inr ?h5\<close>
    unfolding step9_canonical_def canonicalRx_def
    by (rule guarded_absent [OF g9])
  show ?thesis
    using mugShop_run [OF s1 s2 s3 s4 s5 s6 s7 s8 s9] unfolding shopDoc_def by simp
qed

text \<open>
  Claim C5 says that a second pass of the injector, with the same product, gives the document
  of the first pass. The guard of the keywords step looks for \<^verbatim>\<open>name="keywords"\<close> in lower
  case, its pattern has the flag \<^verbatim>\<open>i\<close>. On a document whose keywords tag has the name in
  upper case the first pass inserts a second keywords tag; the second pass then finds the
  text of the guard, in the inserted tag, and replaces the leftmost tag of the pattern, which
  is the old one. The second pass changes the document, and the document has two keywords
  tags.
\<close>

theorem second_pass_changes_document:
  \<open>fst (injectMetaTags (mugShop mugTagSet) upperCaseDoc (js ''/products/mug'') shopUrl) =
     (js ''<head><meta NAME="keywords" content="old">    <meta name="keywords" content="mug, &quot;blue&quot;" />\<newline></head>'')
   \<and> fst (injectMetaTags (mugShop mugTagSet)
          (fst (injectMetaTags (mugShop mugTagSet) upperCaseDoc (js ''/products/mug'') shopUrl))
          (js ''/products/mug'') shopUrl) =
     (js ''<head><meta name="keywords" content="mug, &quot;blue&quot;" />    <meta name="keywords" content="mug, &quot;blue&quot;" />\<newline></head>'')
   \<and> fst (injectMetaTags (mugShop mugTagSet)
          (fst (injectMetaTags (mugShop mugTagSet) upperCaseDoc (js ''/products/mug'') shopUrl))
          (js ''/products/mug'') shopUrl) \<noteq>
       fst (injectMetaTags (mugShop mugTagSet) upperCaseDoc (js ''/products/mug'') shopUrl)\<close>
proof -
  let ?h0 = \<open>js ''<head><meta NAME="keywords" content="old"></head>''\<close>
  let ?h5 = \<open>js ''<head><meta NAME="keywords" content="old">    <meta name="keywords" content="mug, &quot;blue&quot;" />\<newline></head>''\<close>
  have f_title: \<open>title mugTagSet = Str (js ''Mug | uni10'')\<close>
    by (simp add: mugTagSet_def)
  have e1: \<open>regExpExec titleRx ?h0 = None\<close>
    by (simp add: rx_eval del: rxm.simps(6))
  have s1: \<open>step1_title mugTagSet ?h0 = Inr ?h0\<close>
    unfolding step1_title_def
    by (rule replaceTag_none [OF f_title e1])
  have f_description: \<open>description mugTagSet = Str (js ''A "blue" mug'')\<close>
    by (simp add: mugTagSet_def)
  have e2: \<open>regExpExec (tagRx ''<meta'' ''name="description"'' ''content="'') ?h0 = None\<close>
    by (simp add: rx_eval del: rxm.simps(6))
  have s2: \<open>step2_description mugTagSet ?h0 = Inr ?h0\<close>
    unfolding step2_description_def descriptionRx_def
    by (rule replaceTag_none [OF f_description e2])
  have g3: \<open>\<not> includes_js ?h0 (js ''property="og:title"'')\<close> by code_simp
  have s3: \<open>step3_ogTitle mugTagSet ?h0 = Inr ?h0\<close>
    unfolding step3_ogTitle_def ogTitleRx_def
    by (rule guarded_absent [OF g3])
  have g4: \<open>\<not> includes_js ?h0 (js ''property="og:description"'')\<close> by code_simp
  have s4: \<open>step4_ogDescription mugTagSet ?h0 = Inr ?h0\<close>
    unfolding step4_ogDescription_def ogDescriptionRx_def
    by (rule guarded_absent [OF g4])
  have f_keywords_js: \<open>keywords_js mugTagSet = Str (js ''mug, "blue"'')\<close>
    by (simp add: mugTagSet_def)
  have g5: \<open>\<not> includes_js ?h0 (js ''name="keywords"'')\<close> by code_simp
  have e5: \<open>indexOf ?h0 (js ''</head>'') = Some 42\<close> by code_simp
  have r5: \<open>take 42 ?h0 @ js ''    <meta name="keywords" content="'' @ escapeQuot (js ''mug, "blue"'')
        @ js ''" />\<newline>'' @ drop 42 ?h0 =
      ?h5\<close>
    by code_simp
  have ne: \<open>(js ''mug, "blue"'') \<noteq> []\<close> by (simp add: js_def)
  have s5: \<open>step5_keywords mugTagSet ?h0 = Inr ?h5\<close>
    by (rule step5_insert [OF f_keywords_js ne g5 e5 r5])
  have g6: \<open>\<not> includes_js ?h5 (js ''name="twitter:title"'')\<close> by code_simp
  have s6: \<open>step6_twitterTitle mugTagSet ?h5 = Inr ?h5\<close>
    unfolding step6_twitterTitle_def twitterTitleRx_def
    by (rule guarded_absent [OF g6])
  have g7: \<open>\<not> includes_js ?h5 (js ''name="twitter:description"'')\<close> by code_simp
  have s7: \<open>step7_twitterDescription mugTagSet ?h5 = Inr ?h5\<close>
    unfolding step7_twitterDescription_def twitterDescriptionRx_def
    by (rule guarded_absent [OF g7])
  have g8: \<open>\<not> includes_js ?h5 (js ''property="og:image"'')\<close> by code_simp
  have s8: \<open>step8_ogImage mugTagSet ?h5 = Inr ?h5\<close>
    unfolding step8_ogImage_def ogImageRx_def
    by (rule guarded_absent [OF g8])
  have g9: \<open>\<not> includes_js ?h5 (js ''rel="canonical"'')\<close> by code_simp
  have s9: \<open>step9_canonical mugTagSet ?h5 = Inr ?h5\<close>
    unfolding step9_canonical_def canonicalRx_def
    by (rule guarded_absent [OF g9])
  let ?g0 = \<open>js ''<head><meta NAME="keywords" content="old">    <meta name="keywords" content="mug, &quot;blue&quot;" />\<newline></head>''\<close>
  let ?g5 = \<open>js ''<head><meta name="keywords" content="mug, &quot;blue&quot;" />    <meta name="keywords" content="mug, &quot;blue&quot;" />\<newline></head>''\<close>
  have yf_title: \<open>title mugTagSet = Str (js ''Mug | uni10'')\<close>
    by (simp add: mugTagSet_def)
  have ye1: \<open>regExpExec titleRx ?g0 = None\<close>
    by (simp add: rx_eval del: rxm.simps(6))
  have ys1: \<open>step1_title mugTagSet ?g0 = Inr ?g0\<close>
    unfolding step1_title_def
    by (rule replaceTag_none [OF yf_title ye1])
  have yf_description: \<open>description mugTagSet = Str (js ''A "blue" mug'')\<close>
    by (simp add: mugTagSet_def)
  have ye2: \<open>regExpExec (tagRx ''<meta'' ''name="description"'' ''content="'') ?g0 = None\<close>
    by (simp add: rx_eval del: rxm.simps(6))
  have ys2: \<open>step2_description mugTagSet ?g0 = Inr ?g0\<close>
    unfolding step2_description_def descriptionRx_def
    by (rule replaceTag_none [OF yf_description ye2])
  have yg3: \<open>\<not> includes_js ?g0 (js ''property="og:title"'')\<close> by code_simp
  have ys3: \<open>step3_ogTitle mugTagSet ?g0 = Inr ?g0\<close>
    unfolding step3_ogTitle_def ogTitleRx_def
    by (rule guarded_absent [OF yg3])
  have yg4: \<open>\<not> includes_js ?g0 (js ''property="og:description"'')\<close> by code_simp
  have ys4: \<open>step4_ogDescription mugTagSet ?g0 = Inr ?g0\<close>
    unfolding step4_ogDescription_def ogDescriptionRx_def
    by (rule guarded_absent [OF yg4])
  have yf_keywords_js: \<open>keywords_js mugTagSet = Str (js ''mug, "blue"'')\<close>
    by (simp add: mugTagSet_def)
  have yg5: \<open>includes_js ?g0 (js ''name="keywords"'')\<close> by code_simp
  have ye5: \<open>regExpExec (tagRx ''<meta'' ''name="keywords"'' ''content="'') ?g0 =
      Some \<lparr>index = 6, matched = (js ''<meta NAME="keywords" content="old">''), captures = []\<rparr>\<close>
    by (simp add: rx_eval del: rxm.simps(6))
  have yr5: \<open>take 6 ?g0 @ getSubstitution (js ''<meta NAME="keywords" content="old">'') ?g0 6 []
        ((js ''<meta name="keywords" content="'') @ escapeQuot (js ''mug, "blue"'') @ (js ''" />''))
        @ drop (6 + length (js ''<meta NAME="keywords" content="old">'')) ?g0 =
      ?g5\<close>
    by code_simp
  have yne: \<open>(js ''mug, "blue"'') \<noteq> []\<close> by (simp add: js_def)
  have ys5: \<open>step5_keywords mugTagSet ?g0 = Inr ?g5\<close>
    by (rule step5_at [OF yf_keywords_js yne yg5 ye5 yr5])
  have yg6: \<open>\<not> includes_js ?g5 (js ''name="twitter:title"'')\<close> by code_simp
  have ys6: \<open>step6_twitterTitle mugTagSet ?g5 = Inr ?g5\<close>
    unfolding step6_twitterTitle_def twitterTitleRx_def
    by (rule guarded_absent [OF yg6])
  have yg7: \<open>\<not> includes_js ?g5 (js ''name="twitter:description"'')\<close> by code_simp
  have ys7: \<open>step7_twitterDescription mugTagSet ?g5 = Inr ?g5\<close>
    unfolding step7_twitterDescription_def twitterDescriptionRx_def
    by (rule guarded_absent [OF yg7])
  have yg8: \<open>\<not> includes_js ?g5 (js ''property="og:image"'')\<close> by code_simp
  have ys8: \<open>step8_ogImage mugTagSet ?g5 = Inr ?g5\<close>
    unfolding step8_ogImage_def ogImageRx_def
    by (rule guarded_absent [OF yg8])
  have yg9: \<open>\<not> includes_js ?g5 (js ''rel="canonical"'')\<close> by code_simp
  have ys9: \<open>step9_canonical mugTagSet ?g5 = Inr ?g5\<close>
    unfolding step9_canonical_def canonicalRx_def
    by (rule guarded_absent [OF yg9])
  have d: \<open>(js ''<head><meta name="keywords" content="mug, &quot;blue&quot;" />    <meta name="keywords" content="mug, &quot;blue&quot;" />\<newline></head>'') \<noteq>
      (js ''<head><meta NAME="keywords" content="old">    <meta name="keywords" content="mug, &quot;blue&quot;" />\<newline></head>'')\<close>
    by code_simp
  have 1: \<open>fst (injectMetaTags (mugShop mugTagSet) upperCaseDoc (js ''/products/mug'') shopUrl) =
      (js ''<head><meta NAME="keywords" content="old">    <meta name="keywords" content="mug, &quot;blue&quot;" />\<newline></head>'')\<close>
    using mugShop_run [OF s1 s2 s3 s4 s5 s6 s7 s8 s9] unfolding upperCaseDoc_def by simp
  have 2: \<open>fst (injectMetaTags (mugShop mugTagSet)
          ((js ''<head><meta NAME="keywords" content="old">    <meta name="keywords" content="mug, &quot;blue&quot;" />\<newline></head>''))
          (js ''/products/mug'') shopUrl) =
      (js ''<head><meta name="keywords" content="mug, &quot;blue&quot;" />    <meta name="keywords" content="mug, &quot;blue&quot;" />\<newline></head>'')\<close>
    using mugShop_run [OF ys1 ys2 ys3 ys4 ys5 ys6 ys7 ys8 ys9] by simp
  show ?thesis unfolding 1 2 using d by simp
qed

end
